theory Spec2Isabelle
  imports Complex_Main "HOL-Library.Multiset"
begin

section \<open>The anticlustering exchange optimizer\<close>

text \<open>
  A shallow embedding of the two C entry points \<^verbatim>\<open>c_anticlustering\<close> (variance objective)
  and \<^verbatim>\<open>distance_anticlustering\<close> (diversity objective) and of the helpers they share.

  Conventions of the embedding.
  \<^item> \<^verbatim>\<open>size_t\<close> and the \<^verbatim>\<open>int\<close> arrays of the callers are natural numbers; no claim
    depends on wrap-around.
  \<^item> \<^verbatim>\<open>double\<close> is \<^typ>\<open>real\<close>: arithmetic is exact, rounding is not modelled.
  \<^item> \<^verbatim>\<open>&POINTS[e]\<close> is the element address \<open>e\<close>. The nodes that carry elements are
    numbered in the order in which \<^verbatim>\<open>append_element_to_cluster\<close> allocates them; that number is
    the node's address.
  \<^item> The \<^verbatim>\<open>next\<close> fields are written by \<^verbatim>\<open>append_element_to_cluster\<close> only. The chain
    \<^verbatim>\<open>HEAD->next, HEAD->next->next, ..., NULL\<close> of a cluster is kept as the list of its node
    addresses in traversal order; the \<^verbatim>\<open>data\<close> fields, which \<^verbatim>\<open>swap\<close> rewrites, live in
    a store of their own.
  \<^item> Every \<^verbatim>\<open>malloc\<close> asks an oracle whether it succeeds; the messages written to
    \<^verbatim>\<open>stderr\<close> are collected in a list.
\<close>

subsection \<open>Elements, nodes and the membership index\<close>

text \<open>\<^verbatim>\<open>struct element\<close>. The field \<^verbatim>\<open>values\<close> is called \<open>vals\<close> here.\<close>

record element =
  ID :: nat
  cluster :: nat
  category :: nat
  vals :: "real list"

text \<open>
  The linked structure of one call: the array \<^verbatim>\<open>POINTS\<close>, the \<^verbatim>\<open>data\<close> pointer of every
  node, the handle array \<^verbatim>\<open>PTR_NODES\<close> and, per cluster head, the chain of node addresses.
\<close>

record membership =
  POINTS :: "element list"
  NODE_DATA :: "nat list"
  PTR_NODES :: "nat list"
  CHAINS :: "nat list list"

text \<open>The process state a call can observe besides its buffers.\<close>

record world =
  mallocs :: nat
  stderr :: "string list"

definition malloc :: "(nat \<Rightarrow> bool) \<Rightarrow> world \<Rightarrow> bool \<times> world" where
  "malloc ok w = (ok (mallocs w), w\<lparr>mallocs := Suc (mallocs w)\<rparr>)"

definition print_memory_error :: "world \<Rightarrow> world" where
  "print_memory_error w = w\<lparr>stderr := stderr w @ [''Failed to allocate enough memory.'']\<rparr>"

text \<open>
  Undefined behaviour that the control flow of the source can reach is an error value of the
  model: the commit reading \<^verbatim>\<open>best_partner\<close> before anything was assigned to it, and the
  two clean-up routines meeting a pointer that was never assigned or is \<^verbatim>\<open>NULL\<close>. The
  sizes passed to \<^verbatim>\<open>malloc\<close> and the contents of freed memory are not modelled.
\<close>

datatype error =
    Uninitialized_best_partner
  | Uninitialized_pointer_freed
  | Null_pointer_dereferenced

text \<open>
  \<^verbatim>\<open>free_points(n, POINTS)\<close> passes \<^verbatim>\<open>POINTS[i].values\<close> to \<^verbatim>\<open>free\<close> for every \<open>i < n\<close>;
  \<open>points\<close> are the entries whose \<^verbatim>\<open>values\<close> field has been assigned (a \<^verbatim>\<open>NULL\<close> among
  them is harmless). \<^verbatim>\<open>free_nodes(k, PTR_CLUSTER_HEADS)\<close> reads \<^verbatim>\<open>ptr->next\<close> of every one
  of the \<open>k\<close> heads; \<open>HEADS\<close> are the heads allocated so far, the entry after them being
  \<^verbatim>\<open>NULL\<close> when the routine is called from \<^verbatim>\<open>initialize_cluster_heads\<close>.
\<close>

definition free_points :: "nat \<Rightarrow> element list \<Rightarrow> error + unit" where
  "free_points n points = (if length points < n then Inl Uninitialized_pointer_freed else Inr ())"

definition free_nodes :: "nat \<Rightarrow> nat list list \<Rightarrow> error + unit" where
  "free_nodes k HEADS = (if length HEADS < k then Inl Null_pointer_dereferenced else Inr ())"

subsection \<open>swap\<close>

text \<open>The statements of \<^verbatim>\<open>swap\<close>, one update each, in the order of the source.\<close>

definition set_ID :: "nat \<Rightarrow> nat \<Rightarrow> membership \<Rightarrow> membership" where
  "set_ID e v s = s\<lparr>POINTS := (POINTS s)[e := (POINTS s ! e)\<lparr>ID := v\<rparr>]\<rparr>"

definition set_cluster :: "nat \<Rightarrow> nat \<Rightarrow> membership \<Rightarrow> membership" where
  "set_cluster e v s = s\<lparr>POINTS := (POINTS s)[e := (POINTS s ! e)\<lparr>cluster := v\<rparr>]\<rparr>"

definition set_data :: "nat \<Rightarrow> nat \<Rightarrow> membership \<Rightarrow> membership" where
  "set_data a e s = s\<lparr>NODE_DATA := (NODE_DATA s)[a := e]\<rparr>"

definition set_PTR_NODES :: "nat \<Rightarrow> nat \<Rightarrow> membership \<Rightarrow> membership" where
  "set_PTR_NODES e a s = s\<lparr>PTR_NODES := (PTR_NODES s)[e := a]\<rparr>"

definition swap :: "nat \<Rightarrow> nat \<Rightarrow> membership \<Rightarrow> membership" where
  "swap i j s =
    (let one = PTR_NODES s ! i;
         two = PTR_NODES s ! j;
         cl1 = cluster (POINTS s ! (NODE_DATA s ! one));
         cl2 = cluster (POINTS s ! (NODE_DATA s ! two));
         ID1 = ID (POINTS s ! (NODE_DATA s ! one));
         ID2 = ID (POINTS s ! (NODE_DATA s ! two));
         s = set_PTR_NODES ID1 two s;
         s = set_PTR_NODES ID2 one s;
         s = set_ID (NODE_DATA s ! one) ID2 s;
         s = set_ID (NODE_DATA s ! one) ID1 s;
         s = set_cluster (NODE_DATA s ! one) cl2 s;
         s = set_cluster (NODE_DATA s ! two) cl1 s;
         tmp = NODE_DATA s ! one;
         s = set_data one (NODE_DATA s ! two) s;
         s = set_data two tmp s
     in s)"

subsection \<open>Building the cluster lists\<close>

text \<open>
  \<^verbatim>\<open>append_element_to_cluster\<close>: both cases put a fresh node right behind the head. When
  \<^verbatim>\<open>malloc\<close> fails the head's \<^verbatim>\<open>next\<close> has already been overwritten with \<^verbatim>\<open>NULL\<close>.
\<close>

definition append_element_to_cluster ::
  "(nat \<Rightarrow> bool) \<Rightarrow> nat \<Rightarrow> nat \<Rightarrow> membership \<Rightarrow> world \<Rightarrow> nat option \<times> membership \<times> world" where
  "append_element_to_cluster ok HEAD e s w =
    (case CHAINS s ! HEAD of
       [] \<Rightarrow>
         (let (r, w) = malloc ok w in
          if \<not> r then (None, s\<lparr>CHAINS := (CHAINS s)[HEAD := []]\<rparr>, w)
          else (Some (length (NODE_DATA s)),
                s\<lparr>NODE_DATA := NODE_DATA s @ [e],
                  CHAINS := (CHAINS s)[HEAD := [length (NODE_DATA s)]]\<rparr>, w))
     | tmp \<Rightarrow>
         (let (r, w) = malloc ok w in
          if \<not> r then (None, s\<lparr>CHAINS := (CHAINS s)[HEAD := []]\<rparr>, w)
          else (Some (length (NODE_DATA s)),
                s\<lparr>NODE_DATA := NODE_DATA s @ [e],
                  CHAINS := (CHAINS s)[HEAD := length (NODE_DATA s) # tmp]\<rparr>, w)))"

text \<open>
  \<^verbatim>\<open>initialize_cluster_heads(n, k, PTR_CLUSTER_HEADS, POINTS)\<close>: one \<^verbatim>\<open>malloc\<close> per head;
  every head starts with \<^verbatim>\<open>next = NULL\<close>, the empty chain. On a failure the routine calls
  \<^verbatim>\<open>free_points\<close> and \<^verbatim>\<open>free_nodes\<close> before it prints and returns 1 (\<open>Inr None\<close>).
\<close>

fun initialize_cluster_heads_loop ::
  "(nat \<Rightarrow> bool) \<Rightarrow> nat \<Rightarrow> nat \<Rightarrow> element list \<Rightarrow> nat list \<Rightarrow> nat list list \<Rightarrow> world
    \<Rightarrow> (error + nat list list option) \<times> world" where
  "initialize_cluster_heads_loop ok n k points [] HEADS w = (Inr (Some HEADS), w)"
| "initialize_cluster_heads_loop ok n k points (i # is) HEADS w =
    (let (r, w) = malloc ok w in
     if \<not> r then
       (case free_points n points of
          Inl e \<Rightarrow> (Inl e, w)
        | Inr u \<Rightarrow>
            (case free_nodes k HEADS of
               Inl e \<Rightarrow> (Inl e, w)
             | Inr u \<Rightarrow> (Inr None, print_memory_error w)))
     else initialize_cluster_heads_loop ok n k points is (HEADS @ [[]]) w)"

definition initialize_cluster_heads ::
  "(nat \<Rightarrow> bool) \<Rightarrow> nat \<Rightarrow> nat \<Rightarrow> element list \<Rightarrow> world
    \<Rightarrow> (error + nat list list option) \<times> world" where
  "initialize_cluster_heads ok n k points w =
     initialize_cluster_heads_loop ok n k points [0..<k] [] w"

text \<open>
  Modelled from the spec: \<^verbatim>\<open>distance_anticlustering\<close> calls
  \<^verbatim>\<open>initialize_cluster_heads(k, HEADS)\<close> with two arguments; the source of that version is
  not present. Following sections 4.6 and 7 of the specification it allocates the \<open>k\<close>
  heads, and on an allocation failure it reports the message and returns 1 (\<open>None\<close>).
\<close>

fun dist_initialize_cluster_heads_loop ::
  "(nat \<Rightarrow> bool) \<Rightarrow> nat list \<Rightarrow> nat list list \<Rightarrow> world \<Rightarrow> nat list list option \<times> world" where
  "dist_initialize_cluster_heads_loop ok [] HEADS w = (Some HEADS, w)"
| "dist_initialize_cluster_heads_loop ok (i # is) HEADS w =
    (let (r, w) = malloc ok w in
     if \<not> r then (None, print_memory_error w)
     else dist_initialize_cluster_heads_loop ok is (HEADS @ [[]]) w)"

definition dist_initialize_cluster_heads ::
  "(nat \<Rightarrow> bool) \<Rightarrow> nat \<Rightarrow> world \<Rightarrow> nat list list option \<times> world" where
  "dist_initialize_cluster_heads ok k w = dist_initialize_cluster_heads_loop ok [0..<k] [] w"

text \<open>
  \<^verbatim>\<open>fill_cluster_lists\<close>: the loop over \<open>i\<close>; \<^verbatim>\<open>PTR_NODES[i]\<close> is written in the order of
  \<open>i\<close>, so the handle array grows by one entry per round. \<open>None\<close> is the return value 1.
  On a failure the routine calls \<^verbatim>\<open>free_points\<close> and \<^verbatim>\<open>free_nodes\<close> before it prints; both
  entry points call it with all of \<^verbatim>\<open>POINTS\<close> assigned and all \<open>k\<close> heads allocated, so those
  calls meet valid pointers only and are left out.
\<close>

fun fill_cluster_lists_loop ::
  "(nat \<Rightarrow> bool) \<Rightarrow> nat list \<Rightarrow> nat list \<Rightarrow> membership \<Rightarrow> world \<Rightarrow> membership option \<times> world" where
  "fill_cluster_lists_loop ok clusters [] s w = (Some s, w)"
| "fill_cluster_lists_loop ok clusters (i # is) s w =
    (case append_element_to_cluster ok (clusters ! i) i s w of
       (None, s, w) \<Rightarrow> (None, print_memory_error w)
     | (Some a, s, w) \<Rightarrow>
         fill_cluster_lists_loop ok clusters is (s\<lparr>PTR_NODES := PTR_NODES s @ [a]\<rparr>) w)"

definition fill_cluster_lists ::
  "(nat \<Rightarrow> bool) \<Rightarrow> nat \<Rightarrow> nat \<Rightarrow> nat list \<Rightarrow> element list \<Rightarrow> nat list list \<Rightarrow> world
    \<Rightarrow> membership option \<times> world" where
  "fill_cluster_lists ok n k clusters points HEADS w =
     fill_cluster_lists_loop ok clusters [0..<n]
       \<lparr>POINTS = points, NODE_DATA = [], PTR_NODES = [], CHAINS = HEADS\<rparr> w"

subsection \<open>Helpers on arrays\<close>

text \<open>
  \<^verbatim>\<open>array_sum\<close>, \<^verbatim>\<open>copy_array\<close> and \<^verbatim>\<open>copy_matrix\<close>. The targets of the copies are local
  arrays of exactly the copied size, so a copy is the list of the values written.
\<close>

definition array_sum :: "nat \<Rightarrow> real list \<Rightarrow> real" where
  "array_sum k ARRAY = fold (\<lambda>i sum. sum + ARRAY ! i) [0..<k] 0"

definition copy_array :: "nat \<Rightarrow> real list \<Rightarrow> real list" where
  "copy_array n origin = map (\<lambda>i. origin ! i) [0..<n]"

definition copy_matrix :: "nat \<Rightarrow> nat \<Rightarrow> real list list \<Rightarrow> real list list" where
  "copy_matrix n m origin = map (\<lambda>i. map (\<lambda>j. origin ! i ! j) [0..<m]) [0..<n]"

text \<open>
  Reading one row of a column-major matrix through the offset array (\<^verbatim>\<open>m_ptr\<close> in
  \<^verbatim>\<open>fill_data_points\<close>, \<^verbatim>\<open>offsets\<close> in \<^verbatim>\<open>distance_anticlustering\<close>):
  \<^verbatim>\<open>row[j] = data[offsets[j]++]\<close> for \<open>j = 0, ..., m - 1\<close>.
\<close>

definition read_row :: "real list \<Rightarrow> nat \<Rightarrow> nat list \<Rightarrow> real list \<times> nat list" where
  "read_row data m offsets =
     fold (\<lambda>j (row, offsets). (row @ [data ! (offsets ! j)], offsets[j := offsets ! j + 1]))
       [0..<m] ([], offsets)"

subsection \<open>The variance variant: centers and objective\<close>

definition euclidean_squared :: "real list \<Rightarrow> real list \<Rightarrow> nat \<Rightarrow> real" where
  "euclidean_squared x y m = fold (\<lambda>i sum. sum + (x ! i - y ! i)\<^sup>2) [0..<m] 0"

text \<open>The list \<open>HEAD\<close> is the chain behind the head: the nodes the \<^verbatim>\<open>while\<close> loops visit.\<close>

definition cluster_variance :: "nat \<Rightarrow> nat list \<Rightarrow> real list \<Rightarrow> membership \<Rightarrow> real" where
  "cluster_variance m HEAD center s =
     fold (\<lambda>tmp sum. sum + euclidean_squared center (vals (POINTS s ! (NODE_DATA s ! tmp))) m)
       HEAD 0"

definition compute_center :: "nat \<Rightarrow> nat list \<Rightarrow> nat \<Rightarrow> membership \<Rightarrow> real list" where
  "compute_center m HEAD frequency s =
    (let center = replicate m 0;
         center = fold (\<lambda>tmp center.
                    fold (\<lambda>i center.
                      center[i := center ! i + vals (POINTS s ! (NODE_DATA s ! tmp)) ! i])
                      [0..<m] center)
                    HEAD center;
         center = fold (\<lambda>i center. center[i := center ! i / real frequency]) [0..<m] center
     in center)"

definition set_center :: "nat \<Rightarrow> nat \<Rightarrow> real \<Rightarrow> real list list \<Rightarrow> real list list" where
  "set_center c i v CENTERS = CENTERS[c := (CENTERS ! c)[i := v]]"

definition update_centers ::
  "nat \<Rightarrow> nat \<Rightarrow> real list list \<Rightarrow> nat \<Rightarrow> nat \<Rightarrow> nat list \<Rightarrow> membership \<Rightarrow> real list list" where
  "update_centers k m CENTERS one two frequencies s =
    (let cl1 = cluster (POINTS s ! (NODE_DATA s ! one));
         cl2 = cluster (POINTS s ! (NODE_DATA s ! two))
     in fold (\<lambda>i CENTERS.
          let change_cl1 = vals (POINTS s ! (NODE_DATA s ! one)) ! i / real (frequencies ! cl1);
              change_cl2 = vals (POINTS s ! (NODE_DATA s ! two)) ! i / real (frequencies ! cl2);
              CENTERS = set_center cl1 i (CENTERS ! cl1 ! i + change_cl2) CENTERS;
              CENTERS = set_center cl1 i (CENTERS ! cl1 ! i - change_cl1) CENTERS;
              CENTERS = set_center cl2 i (CENTERS ! cl2 ! i - change_cl2) CENTERS;
              CENTERS = set_center cl2 i (CENTERS ! cl2 ! i + change_cl1) CENTERS
          in CENTERS) [0..<m] CENTERS)"

definition update_objective_by_cluster ::
  "nat \<Rightarrow> nat \<Rightarrow> real list list \<Rightarrow> nat \<Rightarrow> nat \<Rightarrow> membership \<Rightarrow> real list \<Rightarrow> real list" where
  "update_objective_by_cluster k m CENTERS cl1 cl2 s OBJECTIVE =
    (let OBJECTIVE = OBJECTIVE[cl1 := cluster_variance m (CHAINS s ! cl1) (CENTERS ! cl1) s];
         OBJECTIVE = OBJECTIVE[cl2 := cluster_variance m (CHAINS s ! cl2) (CENTERS ! cl2) s]
     in OBJECTIVE)"

definition objective_by_cluster :: "nat \<Rightarrow> nat \<Rightarrow> real list list \<Rightarrow> membership \<Rightarrow> real list" where
  "objective_by_cluster m k CENTERS s =
     map (\<lambda>i. cluster_variance m (CHAINS s ! i) (CENTERS ! i) s) [0..<k]"

text \<open>
  The statements of the inner loop of \<^verbatim>\<open>c_anticlustering\<close> from the copies into the \<open>tmp\<close>
  arrays to the call of \<^verbatim>\<open>update_objective_by_cluster\<close>: the tentative swap of \<open>i\<close> and \<open>j\<close>
  and its score.
\<close>

definition var_tentative ::
  "nat \<Rightarrow> nat \<Rightarrow> nat list \<Rightarrow> nat \<Rightarrow> nat \<Rightarrow> nat \<Rightarrow> nat \<Rightarrow> real list list \<Rightarrow> real list \<Rightarrow> membership
    \<Rightarrow> membership \<times> real list list \<times> real list" where
  "var_tentative k m frequencies i j cl1 cl2 CENTERS OBJECTIVE s =
    (let tmp_centers = copy_matrix k m CENTERS;
         tmp_objectives = copy_array k OBJECTIVE;
         tmp_centers = update_centers k m tmp_centers (PTR_NODES s ! i) (PTR_NODES s ! j)
                         frequencies s;
         s = swap i j s;
         tmp_objectives = update_objective_by_cluster k m tmp_centers cl1 cl2 s tmp_objectives
     in (s, tmp_centers, tmp_objectives))"

text \<open>
  \<^verbatim>\<open>fill_data_points\<close>. The field \<^verbatim>\<open>category\<close> is not written by the variance entry point
  and never read by it; it is 0 here. When \<^verbatim>\<open>malloc\<close> fails for the element \<open>i\<close>, the
  \<^verbatim>\<open>values\<close> pointers of the elements \<open>0, ..., i\<close> have been assigned (the last one is
  \<^verbatim>\<open>NULL\<close>) and \<^verbatim>\<open>free_points\<close> is called before the message is printed.
\<close>

fun fill_data_points_loop ::
  "(nat \<Rightarrow> bool) \<Rightarrow> real list \<Rightarrow> nat \<Rightarrow> nat \<Rightarrow> nat list \<Rightarrow> nat list \<Rightarrow> nat list
    \<Rightarrow> element list \<Rightarrow> world \<Rightarrow> (error + element list option) \<times> world" where
  "fill_data_points_loop ok data n m clusters [] m_ptr points w = (Inr (Some points), w)"
| "fill_data_points_loop ok data n m clusters (i # is) m_ptr points w =
    (let (r, w) = malloc ok w in
     if \<not> r then
       (case free_points n
               (points @ [\<lparr>ID = i, cluster = clusters ! i, category = 0, vals = []\<rparr>]) of
          Inl e \<Rightarrow> (Inl e, w)
        | Inr u \<Rightarrow> (Inr None, print_memory_error w))
     else
       (let (row, m_ptr) = read_row data m m_ptr
        in fill_data_points_loop ok data n m clusters is m_ptr
             (points @ [\<lparr>ID = i, cluster = clusters ! i, category = 0, vals = row\<rparr>]) w))"

definition fill_data_points ::
  "(nat \<Rightarrow> bool) \<Rightarrow> real list \<Rightarrow> nat \<Rightarrow> nat \<Rightarrow> nat list \<Rightarrow> world
    \<Rightarrow> (error + element list option) \<times> world" where
  "fill_data_points ok data n m clusters w =
     fill_data_points_loop ok data n m clusters [0..<n] (map (\<lambda>i. i * n) [0..<m]) [] w"

subsection \<open>The variance variant: the exchange loop\<close>

text \<open>
  The variables of the exchange loops that live across rounds. \<open>best_partner\<close> is \<open>None\<close> as
  long as nothing has been assigned to it; the commit then reads an uninitialized variable,
  the error \<open>Uninitialized_best_partner\<close>. The fields \<open>lists\<close> and \<open>best_partner\<close> are common to
  both entry points.
\<close>


record search =
  lists :: membership
  best_partner :: "nat option"

record var_state = search +
  CENTERS :: "real list list"
  OBJECTIVE_BY_CLUSTER :: "real list"
  SUM_VAR_OBJECTIVE :: real
  best_objective :: real
  best_centers :: "real list list"
  best_objectives :: "real list"

text \<open>The body of the inner loop of \<^verbatim>\<open>c_anticlustering\<close> for the exchange partner \<open>j\<close>.\<close>

definition var_partner ::
  "nat \<Rightarrow> nat \<Rightarrow> nat list \<Rightarrow> nat \<Rightarrow> nat \<Rightarrow> nat \<Rightarrow> var_state \<Rightarrow> var_state" where
  "var_partner k m frequencies i cl1 j st =
    (let cl2 = cluster (POINTS (lists st) ! (NODE_DATA (lists st) ! (PTR_NODES (lists st) ! j)))
     in if cl1 = cl2 then st
        else
         (let t = var_tentative k m frequencies i j cl1 cl2 (CENTERS st)
                    (OBJECTIVE_BY_CLUSTER st) (lists st);
              st = st\<lparr>lists := fst t\<rparr>;
              tmp_centers = fst (snd t);
              tmp_objectives = snd (snd t);
              tmp_objective = array_sum k tmp_objectives;
              st = (if tmp_objective > best_objective st
                    then st\<lparr>best_objective := tmp_objective,
                            best_centers := copy_matrix k m tmp_centers,
                            best_objectives := copy_array k tmp_objectives,
                            best_partner := Some j\<rparr>
                    else st);
              st = st\<lparr>lists := swap i j (lists st)\<rparr>
          in st))"

text \<open>
  One round of the outer loop, for the element \<open>i\<close>: \<open>var_search\<close> is the round up to the end
  of the inner loop, \<open>var_round\<close> adds the commit.
\<close>

definition var_search ::
  "nat \<Rightarrow> nat \<Rightarrow> nat \<Rightarrow> nat list \<Rightarrow> nat \<Rightarrow> var_state \<Rightarrow> var_state" where
  "var_search n k m frequencies i st =
    (let cl1 = cluster (POINTS (lists st) ! (NODE_DATA (lists st) ! (PTR_NODES (lists st) ! i)));
         st = st\<lparr>best_objective := 0,
                 best_centers := copy_matrix k m (CENTERS st),
                 best_objectives := copy_array k (OBJECTIVE_BY_CLUSTER st)\<rparr>
     in fold (var_partner k m frequencies i cl1) [0..<n] st)"

definition var_round ::
  "nat \<Rightarrow> nat \<Rightarrow> nat \<Rightarrow> nat list \<Rightarrow> nat \<Rightarrow> var_state \<Rightarrow> error + var_state" where
  "var_round n k m frequencies i st =
    (let st = var_search n k m frequencies i st
     in if best_objective st > SUM_VAR_OBJECTIVE st
        then (case best_partner st of
                None \<Rightarrow> Inl Uninitialized_best_partner
              | Some b \<Rightarrow>
                  Inr (st\<lparr>lists := swap i b (lists st),
                          SUM_VAR_OBJECTIVE := best_objective st,
                          CENTERS := copy_matrix k m (best_centers st),
                          OBJECTIVE_BY_CLUSTER := copy_array k (best_objectives st)\<rparr>))
        else Inr st)"

fun var_rounds ::
  "nat \<Rightarrow> nat \<Rightarrow> nat \<Rightarrow> nat list \<Rightarrow> nat list \<Rightarrow> var_state \<Rightarrow> error + var_state" where
  "var_rounds n k m frequencies [] st = Inr st"
| "var_rounds n k m frequencies (i # is) st =
    (case var_round n k m frequencies i st of
       Inl e \<Rightarrow> Inl e
     | Inr st \<Rightarrow> var_rounds n k m frequencies is st)"

text \<open>The output loop: \<^verbatim>\<open>clusters[i] = PTR_NODES[i]->data->cluster\<close>.\<close>

definition write_output :: "nat \<Rightarrow> membership \<Rightarrow> nat list \<Rightarrow> nat list" where
  "write_output n s clusters =
     fold (\<lambda>i clusters.
        clusters[i := cluster (POINTS s ! (NODE_DATA s ! (PTR_NODES s ! i)))]) [0..<n] clusters"

text \<open>
  The buffers of the caller: the field \<open>arg_x\<close> is what the pointer argument \<^verbatim>\<open>x\<close> points
  to. The integers \<^verbatim>\<open>N\<close>, \<^verbatim>\<open>M\<close>, \<^verbatim>\<open>K\<close> (and \<^verbatim>\<open>USE_CATS\<close>, \<^verbatim>\<open>C\<close>) are passed by
  pointer like the arrays.
\<close>

record args =
  arg_data :: "real list"
  arg_N :: nat
  arg_K :: nat
  arg_frequencies :: "nat list"
  arg_clusters :: "nat list"

record var_args = args +
  arg_M :: nat

text \<open>
  \<^verbatim>\<open>c_anticlustering\<close>. The result is the state of the caller's buffers and of the process
  when the call returns.
\<close>

definition c_anticlustering ::
  "(nat \<Rightarrow> bool) \<Rightarrow> var_args \<Rightarrow> world \<Rightarrow> error + var_args \<times> world" where
  "c_anticlustering ok a w =
    (let n = arg_N a; m = arg_M a; k = arg_K a in
     case fill_data_points ok (arg_data a) n m (arg_clusters a) w of
       (Inl e, w) \<Rightarrow> Inl e
     | (Inr None, w) \<Rightarrow> Inr (a, w)
     | (Inr (Some points), w) \<Rightarrow>
     (case initialize_cluster_heads ok n k points w of
       (Inl e, w) \<Rightarrow> Inl e
     | (Inr None, w) \<Rightarrow> Inr (a, w)
     | (Inr (Some PTR_CLUSTER_HEADS), w) \<Rightarrow>
     (case fill_cluster_lists ok n k (arg_clusters a) points PTR_CLUSTER_HEADS w of
       (None, w) \<Rightarrow> Inr (a, w)
     | (Some s, w) \<Rightarrow>
       (let centers = map (\<lambda>i. compute_center m (CHAINS s ! i) (arg_frequencies a ! i) s) [0..<k];
            objective = objective_by_cluster m k centers s;
            st = \<lparr>lists = s, best_partner = None, CENTERS = centers,
                  OBJECTIVE_BY_CLUSTER = objective,
                  SUM_VAR_OBJECTIVE = array_sum k objective,
                  best_objective = 0, best_centers = [], best_objectives = []\<rparr>
        in case var_rounds n k m (arg_frequencies a) [0..<n] st of
             Inl e \<Rightarrow> Inl e
           | Inr st \<Rightarrow> Inr (a\<lparr>arg_clusters := write_output n (lists st) (arg_clusters a)\<rparr>, w)))))"

subsection \<open>The diversity variant\<close>

text \<open>
  \<^verbatim>\<open>distances_one_element\<close>: \<open>start_node\<close> is the chain behind the start node, the nodes
  the loop visits.
\<close>

definition distances_one_element ::
  "real list list \<Rightarrow> nat list \<Rightarrow> nat \<Rightarrow> membership \<Rightarrow> real" where
  "distances_one_element distances start_node i s =
     fold (\<lambda>tmp sum. sum + distances ! i ! ID (POINTS s ! (NODE_DATA s ! tmp))) start_node 0"

fun distances_within_loop ::
  "real list list \<Rightarrow> nat list \<Rightarrow> membership \<Rightarrow> real \<Rightarrow> real" where
  "distances_within_loop distances [] s acc = acc"
| "distances_within_loop distances (current # rest) s acc =
     distances_within_loop distances rest s
       (acc + distances_one_element distances rest (ID (POINTS s ! (NODE_DATA s ! current))) s)"

definition distances_within :: "real list list \<Rightarrow> nat list \<Rightarrow> membership \<Rightarrow> real" where
  "distances_within distances HEAD s = distances_within_loop distances HEAD s 0"

definition distance_objective :: "nat \<Rightarrow> real list list \<Rightarrow> membership \<Rightarrow> real list" where
  "distance_objective k distances s =
     map (\<lambda>i. distances_within distances (CHAINS s ! i) s) [0..<k]"

text \<open>
  The statements of the inner loop of \<^verbatim>\<open>distance_anticlustering\<close> from the copy into
  \<open>tmp_objs\<close> to the last update of \<open>tmp_objs\<close>: the two subtractions, the tentative swap of
  \<open>i\<close> and \<open>j\<close>, the two additions.
\<close>

definition dist_tentative ::
  "nat \<Rightarrow> real list list \<Rightarrow> nat \<Rightarrow> nat \<Rightarrow> nat \<Rightarrow> nat \<Rightarrow> real list \<Rightarrow> membership
    \<Rightarrow> membership \<times> real list" where
  "dist_tentative k distances i j cl1 cl2 OBJ s =
    (let tmp_objs = copy_array k OBJ;
         tmp_objs = tmp_objs[cl1 := tmp_objs ! cl1 -
                      distances_one_element distances (CHAINS s ! cl1) i s];
         tmp_objs = tmp_objs[cl2 := tmp_objs ! cl2 -
                      distances_one_element distances (CHAINS s ! cl2) j s];
         s = swap i j s;
         tmp_objs = tmp_objs[cl1 := tmp_objs ! cl1 +
                      distances_one_element distances (CHAINS s ! cl1) j s];
         tmp_objs = tmp_objs[cl2 := tmp_objs ! cl2 +
                      distances_one_element distances (CHAINS s ! cl2) i s]
     in (s, tmp_objs))"

text \<open>
  The first loop of \<^verbatim>\<open>distance_anticlustering\<close>. The result of the dummy \<^verbatim>\<open>malloc\<close> is not
  tested; the buffer is never read (\<open>[]\<close> stands for \<^verbatim>\<open>NULL\<close>).
\<close>

fun dist_points_loop ::
  "(nat \<Rightarrow> bool) \<Rightarrow> nat \<Rightarrow> nat list \<Rightarrow> nat list \<Rightarrow> nat list \<Rightarrow> element list \<Rightarrow> world
    \<Rightarrow> element list \<times> world" where
  "dist_points_loop ok use_cats clusters categories [] points w = (points, w)"
| "dist_points_loop ok use_cats clusters categories (i # is) points w =
    (let (r, w) = malloc ok w
     in dist_points_loop ok use_cats clusters categories is
          (points @ [\<lparr>ID = i, cluster = clusters ! i,
                      category = (if use_cats \<noteq> 0 then categories ! i else 0),
                      vals = (if r then [0] else [])\<rparr>]) w)"

text \<open>
  Modelled from the spec: \<^verbatim>\<open>write_cheads\<close> is called by \<^verbatim>\<open>distance_anticlustering\<close> but its
  source is not present. Following section 4.4 of the specification it produces, for every
  category \<open>c\<close>, the ordered list of the element ids whose category is \<open>c\<close> (for one category
  the list of all ids), and it fails on an allocation failure (return value 1, here \<open>None\<close>).
  One allocation per category is assumed.
\<close>

fun write_cheads_loop ::
  "(nat \<Rightarrow> bool) \<Rightarrow> nat \<Rightarrow> element list \<Rightarrow> nat list \<Rightarrow> nat list list \<Rightarrow> world
    \<Rightarrow> nat list list option \<times> world" where
  "write_cheads_loop ok n points [] C_HEADS w = (Some C_HEADS, w)"
| "write_cheads_loop ok n points (c # cs) C_HEADS w =
    (let (r, w) = malloc ok w in
     if \<not> r then (None, w)
     else write_cheads_loop ok n points cs
            (C_HEADS @ [filter (\<lambda>i. category (points ! i) = c) [0..<n]]) w)"

definition write_cheads ::
  "(nat \<Rightarrow> bool) \<Rightarrow> nat \<Rightarrow> nat \<Rightarrow> element list \<Rightarrow> world \<Rightarrow> nat list list option \<times> world" where
  "write_cheads ok n c points w = write_cheads_loop ok n points [0..<c] [] w"

text \<open>The allocation of the rows of the distance matrix, and its reconstruction.\<close>

fun alloc_distances_loop :: "(nat \<Rightarrow> bool) \<Rightarrow> nat list \<Rightarrow> world \<Rightarrow> bool \<times> world" where
  "alloc_distances_loop ok [] w = (True, w)"
| "alloc_distances_loop ok (i # is) w =
    (let (r, w) = malloc ok w in
     if \<not> r then (False, print_memory_error w)
     else alloc_distances_loop ok is w)"

fun restore_distances_loop ::
  "real list \<Rightarrow> nat \<Rightarrow> nat list \<Rightarrow> nat list \<Rightarrow> real list list \<Rightarrow> real list list" where
  "restore_distances_loop data n [] offsets distances = distances"
| "restore_distances_loop data n (i # is) offsets distances =
    (let (row, offsets) = read_row data n offsets
     in restore_distances_loop data n is offsets (distances @ [row]))"

definition restore_distances :: "real list \<Rightarrow> nat \<Rightarrow> real list list" where
  "restore_distances data n =
     restore_distances_loop data n [0..<n] (map (\<lambda>i. i * n) [0..<n]) []"

record dist_state = search +
  OBJ_BY_CLUSTER :: "real list"
  SUM_OBJECTIVE :: real
  best_obj :: real
  best_objs :: "real list"

text \<open>The body of the inner loop of \<^verbatim>\<open>distance_anticlustering\<close> for the partner \<open>j\<close>.\<close>

definition dist_partner ::
  "nat \<Rightarrow> real list list \<Rightarrow> nat \<Rightarrow> nat \<Rightarrow> nat \<Rightarrow> dist_state \<Rightarrow> dist_state" where
  "dist_partner k distances i cl1 j st =
    (let cl2 = cluster (POINTS (lists st) ! (NODE_DATA (lists st) ! (PTR_NODES (lists st) ! j)))
     in if cl1 = cl2 then st
        else
         (let t = dist_tentative k distances i j cl1 cl2 (OBJ_BY_CLUSTER st) (lists st);
              st = st\<lparr>lists := fst t\<rparr>;
              tmp_objs = snd t;
              tmp_obj = array_sum k tmp_objs;
              st = (if tmp_obj > best_obj st
                    then st\<lparr>best_obj := tmp_obj,
                            best_objs := copy_array k tmp_objs,
                            best_partner := Some j\<rparr>
                    else st);
              st = st\<lparr>lists := swap i j (lists st)\<rparr>
          in st))"

text \<open>
  One round of the outer loop: \<open>dist_search\<close> is the round up to the end of the inner loop
  over the partners of the category of \<open>i\<close>, \<open>dist_round\<close> adds the commit.
\<close>

definition dist_search ::
  "nat \<Rightarrow> real list list \<Rightarrow> nat list \<Rightarrow> nat list list \<Rightarrow> nat \<Rightarrow> dist_state \<Rightarrow> dist_state" where
  "dist_search k distances CAT_frequencies C_HEADS i st =
    (let cl1 = cluster (POINTS (lists st) ! (NODE_DATA (lists st) ! (PTR_NODES (lists st) ! i)));
         st = st\<lparr>best_obj := 0, best_objs := copy_array k (OBJ_BY_CLUSTER st)\<rparr>;
         category_i = category (POINTS (lists st) ! (NODE_DATA (lists st) ! (PTR_NODES (lists st) ! i)));
         n_partners = CAT_frequencies ! category_i
     in fold (\<lambda>u st. dist_partner k distances i cl1 (C_HEADS ! category_i ! u) st)
          [0..<n_partners] st)"

definition dist_round ::
  "nat \<Rightarrow> real list list \<Rightarrow> nat list \<Rightarrow> nat list list \<Rightarrow> nat \<Rightarrow> dist_state
    \<Rightarrow> error + dist_state" where
  "dist_round k distances CAT_frequencies C_HEADS i st =
    (let st = dist_search k distances CAT_frequencies C_HEADS i st
     in if best_obj st > SUM_OBJECTIVE st
        then (case best_partner st of
                None \<Rightarrow> Inl Uninitialized_best_partner
              | Some b \<Rightarrow>
                  Inr (st\<lparr>lists := swap i b (lists st),
                          SUM_OBJECTIVE := best_obj st,
                          OBJ_BY_CLUSTER := copy_array k (best_objs st)\<rparr>))
        else Inr st)"

fun dist_rounds ::
  "nat \<Rightarrow> real list list \<Rightarrow> nat list \<Rightarrow> nat list list \<Rightarrow> nat list \<Rightarrow> dist_state
    \<Rightarrow> error + dist_state" where
  "dist_rounds k distances CAT_frequencies C_HEADS [] st = Inr st"
| "dist_rounds k distances CAT_frequencies C_HEADS (i # is) st =
    (case dist_round k distances CAT_frequencies C_HEADS i st of
       Inl e \<Rightarrow> Inl e
     | Inr st \<Rightarrow> dist_rounds k distances CAT_frequencies C_HEADS is st)"

record dist_args = args +
  arg_USE_CATS :: nat
  arg_C :: nat
  arg_CAT_frequencies :: "nat list"
  arg_categories :: "nat list"

text \<open>\<^verbatim>\<open>distance_anticlustering\<close>.\<close>

definition distance_anticlustering ::
  "(nat \<Rightarrow> bool) \<Rightarrow> dist_args \<Rightarrow> world \<Rightarrow> error + dist_args \<times> world" where
  "distance_anticlustering ok a w =
    (let n = arg_N a; k = arg_K a;
         (points, w) = dist_points_loop ok (arg_USE_CATS a) (arg_clusters a) (arg_categories a) [0..<n] [] w;
         c = (if arg_USE_CATS a \<noteq> 0 then arg_C a else 1);
         a = (if arg_USE_CATS a \<noteq> 0 then a
              else a\<lparr>arg_CAT_frequencies := (arg_CAT_frequencies a)[0 := n]\<rparr>)
     in
     case write_cheads ok n c points w of
       (None, w) \<Rightarrow> Inr (a, print_memory_error w)
     | (Some C_HEADS, w) \<Rightarrow>
     (case dist_initialize_cluster_heads ok k w of
       (None, w) \<Rightarrow> Inr (a, w)
     | (Some HEADS, w) \<Rightarrow>
     (case fill_cluster_lists ok n k (arg_clusters a) points HEADS w of
       (None, w) \<Rightarrow> Inr (a, w)
     | (Some s, w) \<Rightarrow>
     (case alloc_distances_loop ok [0..<n] w of
       (False, w) \<Rightarrow> Inr (a, w)
     | (True, w) \<Rightarrow>
       (let distances = restore_distances (arg_data a) n;
            objective = distance_objective k distances s;
            st = \<lparr>lists = s, best_partner = None, OBJ_BY_CLUSTER = objective,
                  SUM_OBJECTIVE = array_sum k objective, best_obj = 0, best_objs = []\<rparr>
        in case dist_rounds k distances (arg_CAT_frequencies a) C_HEADS [0..<n] st of
             Inl e \<Rightarrow> Inl e
           | Inr st \<Rightarrow> Inr (a\<lparr>arg_clusters := write_output n (lists st) (arg_clusters a)\<rparr>, w))))))"

section \<open>Invariants of the membership index\<close>

text \<open>
  \<open>consistent\<close>: the handle array and the \<^verbatim>\<open>data\<close> pointers are inverse to each other and
  every element carries its own index as \<^verbatim>\<open>ID\<close>. \<open>chains_ok\<close>: the chain of cluster \<open>c\<close> holds
  exactly the nodes whose element is labelled \<open>c\<close>, once each. \<open>points_ok\<close>: what both entry
  points store in \<^verbatim>\<open>POINTS\<close> before the lists are built. \<open>filled\<close>: the loop invariant of
  \<^verbatim>\<open>fill_cluster_lists\<close>. \<open>reachable\<close>: the states of the index after a successful
  \<^verbatim>\<open>fill_cluster_lists\<close> and any number of calls \<^verbatim>\<open>swap(n, i, j, PTR_NODES)\<close> with
  \<open>i, j < n\<close>.
\<close>

definition consistent :: "nat \<Rightarrow> membership \<Rightarrow> bool" where
  "consistent n s \<longleftrightarrow>
     length (POINTS s) = n \<and> length (NODE_DATA s) = n \<and> length (PTR_NODES s) = n \<and>
     (\<forall>e<n. ID (POINTS s ! e) = e \<and> PTR_NODES s ! e < n \<and> NODE_DATA s ! (PTR_NODES s ! e) = e) \<and>
     (\<forall>a<n. NODE_DATA s ! a < n \<and> PTR_NODES s ! (NODE_DATA s ! a) = a)"

definition chains_ok :: "nat \<Rightarrow> nat \<Rightarrow> membership \<Rightarrow> bool" where
  "chains_ok n k s \<longleftrightarrow>
     length (CHAINS s) = k \<and>
     (\<forall>c<k. distinct (CHAINS s ! c) \<and>
        set (CHAINS s ! c) = {a. a < n \<and> cluster (POINTS s ! (NODE_DATA s ! a)) = c})"

definition points_ok :: "nat \<Rightarrow> nat \<Rightarrow> nat list \<Rightarrow> element list \<Rightarrow> bool" where
  "points_ok n k clusters points \<longleftrightarrow>
     length points = n \<and> (\<forall>e<n. ID (points ! e) = e \<and> cluster (points ! e) = clusters ! e \<and> clusters ! e < k)"

definition filled :: "nat \<Rightarrow> nat list \<Rightarrow> element list \<Rightarrow> nat \<Rightarrow> membership \<Rightarrow> bool" where
  "filled k clusters points i s \<longleftrightarrow>
     POINTS s = points \<and> NODE_DATA s = [0..<i] \<and> PTR_NODES s = [0..<i] \<and>
     length (CHAINS s) = k \<and>
     (\<forall>c<k. distinct (CHAINS s ! c) \<and> set (CHAINS s ! c) = {a. a < i \<and> clusters ! a = c})"

inductive reachable :: "nat \<Rightarrow> nat \<Rightarrow> nat list \<Rightarrow> element list \<Rightarrow> membership \<Rightarrow> bool"
  for n k clusters points where
    init: "fill_cluster_lists ok n k clusters points (replicate k []) w = (Some s, w') \<Longrightarrow> reachable n k clusters points s"
  | step: "reachable n k clusters points s \<Longrightarrow> i < n \<Longrightarrow> j < n \<Longrightarrow> reachable n k clusters points (swap i j s)"


section \<open>Auxiliary predicates and the objectives of the specification\<close>

text \<open>
  \<open>var_improved J st st'\<close>: the inner loop of \<^verbatim>\<open>c_anticlustering\<close> has either left the state
  as it was or recorded a partner from \<open>J\<close> with a larger objective. \<open>all_ok ok t cnt\<close>: the
  \<open>cnt\<close> calls of \<^verbatim>\<open>malloc\<close> from the \<open>t\<close>-th on succeed. \<open>oom w w'\<close>: the message of
  \<^verbatim>\<open>print_memory_error\<close> has been appended to \<^verbatim>\<open>stderr\<close>. \<open>clusters_ok\<close>: the precondition on
  the assignment vector, \<open>N\<close> labels below \<open>K\<close>.
\<close>

definition var_improved :: "nat set \<Rightarrow> var_state \<Rightarrow> var_state \<Rightarrow> bool" where
  "var_improved J st st' \<longleftrightarrow>
     st' = st \<or>
     (\<exists>bo bc bos j. j \<in> J \<and> best_objective st < bo \<and>
        st' = st\<lparr>best_objective := bo, best_centers := bc, best_objectives := bos,
                 best_partner := Some j\<rparr>)"

definition all_ok :: "(nat \<Rightarrow> bool) \<Rightarrow> nat \<Rightarrow> nat \<Rightarrow> bool" where
  "all_ok ok t cnt \<longleftrightarrow> (\<forall>x<cnt. ok (t + x))"

definition oom :: "world \<Rightarrow> world \<Rightarrow> bool" where
  "oom w w' \<longleftrightarrow> stderr w' = stderr w @ [''Failed to allocate enough memory.'']"

definition clusters_ok :: "nat \<Rightarrow> nat \<Rightarrow> nat list \<Rightarrow> bool" where
  "clusters_ok n k cl \<longleftrightarrow> length cl = n \<and> (\<forall>i<n. cl ! i < k)"

text \<open>
  For the diversity entry point. \<open>dist_improved\<close>: as \<open>var_improved\<close>. \<open>dist_inv\<close>: the
  invariant of its outer loop (the index is consistent, the categories of the elements are
  \<open>cats\<close>, and \<open>best_partner\<close> has been assigned only if \<^verbatim>\<open>SUM_OBJECTIVE\<close> is not negative).
  \<open>partners_ok\<close>: the partner lists hold ids below \<open>n\<close> of the category they are listed
  under. \<open>dist_after\<close>: the caller's buffers after the set-up of the categories, which
  stores \<open>N\<close> in \<^verbatim>\<open>CAT_frequencies[0]\<close> when \<^verbatim>\<open>USE_CATS\<close> is 0. \<open>n_cats\<close>: the number \<open>c\<close> of
  categories the call works with. \<open>checked_allocs\<close>: the number of allocations whose result
  the call tests (all but the \<open>N\<close> dummy allocations of the first loop). \<open>cats_of\<close>: the
  category of every element. \<open>dist_pre\<close>: the preconditions of section 6 of the
  specification on the assignment and on the categories.
\<close>

definition dist_improved :: "nat set \<Rightarrow> dist_state \<Rightarrow> dist_state \<Rightarrow> bool" where
  "dist_improved J st st' \<longleftrightarrow>
     st' = st \<or>
     (\<exists>bo bos j. j \<in> J \<and> best_obj st < bo \<and>
        st' = st\<lparr>best_obj := bo, best_objs := bos, best_partner := Some j\<rparr>)"

definition dist_inv :: "nat \<Rightarrow> nat list \<Rightarrow> dist_state \<Rightarrow> bool" where
  "dist_inv n cats st \<longleftrightarrow>
     consistent n (lists st) \<and> map category (POINTS (lists st)) = cats \<and>
     (best_partner st \<noteq> None \<longrightarrow> 0 \<le> SUM_OBJECTIVE st)"

definition partners_ok :: "nat \<Rightarrow> nat list \<Rightarrow> nat list \<Rightarrow> nat list list \<Rightarrow> bool" where
  "partners_ok n cats CAT_frequencies C_HEADS \<longleftrightarrow>
     (\<forall>i<n. \<forall>u<CAT_frequencies ! (cats ! i).
        C_HEADS ! (cats ! i) ! u < n \<and> cats ! (C_HEADS ! (cats ! i) ! u) = cats ! i)"

definition dist_after :: "dist_args \<Rightarrow> dist_args" where
  "dist_after a = (if arg_USE_CATS a \<noteq> 0 then a
                   else a\<lparr>arg_CAT_frequencies := (arg_CAT_frequencies a)[0 := arg_N a]\<rparr>)"

definition n_cats :: "dist_args \<Rightarrow> nat" where
  "n_cats a = (if arg_USE_CATS a \<noteq> 0 then arg_C a else 1)"

definition checked_allocs :: "dist_args \<Rightarrow> nat" where
  "checked_allocs a = n_cats a + arg_K a + arg_N a + arg_N a"

definition cats_of :: "dist_args \<Rightarrow> nat list" where
  "cats_of a = map (\<lambda>i. if arg_USE_CATS a \<noteq> 0 then arg_categories a ! i else 0) [0..<arg_N a]"

definition dist_pre :: "dist_args \<Rightarrow> bool" where
  "dist_pre a \<longleftrightarrow>
     clusters_ok (arg_N a) (arg_K a) (arg_clusters a) \<and>
     (if arg_USE_CATS a \<noteq> 0
      then length (arg_categories a) = arg_N a \<and> length (arg_CAT_frequencies a) = arg_C a \<and>
           (\<forall>i<arg_N a. arg_categories a ! i < arg_C a) \<and>
           (\<forall>c<arg_C a. arg_CAT_frequencies a ! c =
               length (filter (\<lambda>i. arg_categories a ! i = c) [0..<arg_N a]))
      else arg_CAT_frequencies a \<noteq> [])"

text \<open>
  Oracles for \<^verbatim>\<open>malloc\<close> (every call succeeds; none does; only the first \<open>n\<close> calls
  succeed; only the first \<open>n\<close> calls fail) and the state of the process at the start of a
  call. \<open>first_failure ok w t\<close>: counted from the state \<open>w\<close>, the call number \<open>t\<close> of
  \<^verbatim>\<open>malloc\<close> is the first that fails. \<open>cluster_size cl c\<close> is
  \<open>#{i : cl[i] = c}\<close>, \<open>sizes_ok\<close> says that every cluster has the size \<open>frequencies\<close> gives
  it, and \<open>category_count cats cl c k\<close> is \<open>#{i : cats[i] = c AND cl[i] = k}\<close>.
\<close>

definition all_succeed :: "nat \<Rightarrow> bool" where
  "all_succeed t = True"

definition none_succeed :: "nat \<Rightarrow> bool" where
  "none_succeed t = False"

definition first_succeed :: "nat \<Rightarrow> nat \<Rightarrow> bool" where
  "first_succeed n t = (t < n)"

definition dummy_fails :: "nat \<Rightarrow> nat \<Rightarrow> bool" where
  "dummy_fails n t = (n \<le> t)"

definition first_failure :: "(nat \<Rightarrow> bool) \<Rightarrow> world \<Rightarrow> nat \<Rightarrow> bool" where
  "first_failure ok w t \<longleftrightarrow> all_ok ok (mallocs w) t \<and> \<not> ok (mallocs w + t)"

definition start :: world where
  "start = \<lparr>mallocs = 0, stderr = []\<rparr>"

definition cluster_size :: "nat list \<Rightarrow> nat \<Rightarrow> nat" where
  "cluster_size cl c = length (filter (\<lambda>i. cl ! i = c) [0..<length cl])"

definition sizes_ok :: "nat \<Rightarrow> nat list \<Rightarrow> nat list \<Rightarrow> bool" where
  "sizes_ok k freq cl \<longleftrightarrow> (\<forall>c<k. cluster_size cl c = freq ! c)"

definition category_count :: "nat list \<Rightarrow> nat list \<Rightarrow> nat \<Rightarrow> nat \<Rightarrow> nat" where
  "category_count cats cl c k =
     length (filter (\<lambda>i. cats ! i = c \<and> cl ! i = k) [0..<length cl])"

text \<open>
  The variance objective as the specification words it: the sum over the clusters of the
  squared Euclidean distances from each member to the centroid of the cluster, the centroid
  being the mean of the members' feature vectors (\<open>dat\<close> is column-major). And the centroid
  update of section 4.3 of the specification, for a swap of an element with features \<open>f_i\<close> in
  cluster \<open>a\<close> and one with features \<open>f_j\<close> in cluster \<open>b\<close>.
\<close>

definition members :: "nat list \<Rightarrow> nat \<Rightarrow> nat list" where
  "members cl c = filter (\<lambda>e. cl ! e = c) [0..<length cl]"

definition centroid :: "real list \<Rightarrow> nat \<Rightarrow> nat \<Rightarrow> nat list \<Rightarrow> real list" where
  "centroid dat n m es = map (\<lambda>j. (\<Sum>e\<leftarrow>es. dat ! (j * n + e)) / real (length es)) [0..<m]"

definition variance_objective :: "real list \<Rightarrow> nat \<Rightarrow> nat \<Rightarrow> nat \<Rightarrow> nat list \<Rightarrow> real" where
  "variance_objective dat n m k cl =
     (\<Sum>c\<leftarrow>[0..<k]. \<Sum>e\<leftarrow>members cl c. \<Sum>j\<leftarrow>[0..<m].
        (dat ! (j * n + e) - centroid dat n m (members cl c) ! j)\<^sup>2)"

definition spec_update_centers ::
  "nat \<Rightarrow> real list list \<Rightarrow> nat \<Rightarrow> nat \<Rightarrow> real list \<Rightarrow> real list \<Rightarrow> nat list \<Rightarrow> real list list" where
  "spec_update_centers m cs a b f_i f_j freq =
     (let new_a = map (\<lambda>d. cs ! a ! d + (f_j ! d - f_i ! d) / real (freq ! a)) [0..<m];
          new_b = map (\<lambda>d. cs ! b ! d + (f_i ! d - f_j ! d) / real (freq ! b)) [0..<m]
      in cs[a := new_a, b := new_b])"

text \<open>
  The diversity objective of a cluster as the specification words it (section 3): the sum of
  \<open>D[e, e']\<close> over the members of the cluster, counted once per unordered pair.
  \<open>pairs_once D es\<close> adds \<open>D[e, e']\<close> for every pair with \<open>e\<close> before \<open>e'\<close> in the list \<open>es\<close>,
  and \<open>diversity_of D cl c\<close> takes for \<open>es\<close> the members of the cluster \<open>c\<close> of the assignment
  \<open>cl\<close> in increasing order. \<open>symmetric_matrix\<close> and \<open>zero_diagonal\<close> are the two properties
  section 6 of the specification asks of the matrix. \<open>node_ids s chain\<close> are the ids of the
  elements the nodes of a chain point to, in the order of the chain.
\<close>

fun pairs_once :: "real list list \<Rightarrow> nat list \<Rightarrow> real" where
  "pairs_once D [] = 0"
| "pairs_once D (e # es) = (\<Sum>e'\<leftarrow>es. D ! e ! e') + pairs_once D es"

definition diversity_of :: "real list list \<Rightarrow> nat list \<Rightarrow> nat \<Rightarrow> real" where
  "diversity_of D cl c = pairs_once D (members cl c)"

definition symmetric_matrix :: "nat \<Rightarrow> real list list \<Rightarrow> bool" where
  "symmetric_matrix n D \<longleftrightarrow> (\<forall>x<n. \<forall>y<n. D ! x ! y = D ! y ! x)"

definition zero_diagonal :: "nat \<Rightarrow> real list list \<Rightarrow> bool" where
  "zero_diagonal n D \<longleftrightarrow> (\<forall>x<n. D ! x ! x = 0)"

definition node_ids :: "membership \<Rightarrow> nat list \<Rightarrow> nat list" where
  "node_ids s chain = map (\<lambda>a. ID (POINTS s ! (NODE_DATA s ! a))) chain"

section \<open>Properties of swap and of the initial lists\<close>

lemma ID_update_same: "ID e = v \<Longrightarrow> e\<lparr>ID := v\<rparr> = e"
  by (cases e) simp

lemma cluster_update_same: "cluster e = v \<Longrightarrow> e\<lparr>cluster := v\<rparr> = e"
  by (cases e) simp

lemma swap_consistent_eq:
  assumes "consistent n s" "i < n" "j < n"
  shows "swap i j s =
    s\<lparr>POINTS := (POINTS s)[i := (POINTS s ! i)\<lparr>cluster := cluster (POINTS s ! j)\<rparr>,
                             j := (POINTS s ! j)\<lparr>cluster := cluster (POINTS s ! i)\<rparr>],
      NODE_DATA := (NODE_DATA s)[PTR_NODES s ! i := j, PTR_NODES s ! j := i],
      PTR_NODES := (PTR_NODES s)[i := PTR_NODES s ! j, j := PTR_NODES s ! i]\<rparr>"
proof (cases "i = j")
  case True
  with assms show ?thesis
    by (simp add: swap_def consistent_def Let_def set_PTR_NODES_def set_ID_def set_cluster_def
        set_data_def ID_update_same cluster_update_same)
next
  case False
  with assms have ne: "PTR_NODES s ! i \<noteq> PTR_NODES s ! j"
    unfolding consistent_def by metis
  from assms False ne show ?thesis
    by (simp add: swap_def consistent_def Let_def set_PTR_NODES_def set_ID_def set_cluster_def
        set_data_def list_update_swap ID_update_same cluster_update_same)
qed

lemma consistent_inj:
  assumes "consistent n s" "i < n" "j < n" "PTR_NODES s ! i = PTR_NODES s ! j"
  shows "i = j"
  using assms unfolding consistent_def by metis

lemma swap_PTR_NODES:
  assumes "consistent n s" "i < n" "j < n" "e < n"
  shows "PTR_NODES (swap i j s) ! e =
    (if e = j then PTR_NODES s ! i else if e = i then PTR_NODES s ! j else PTR_NODES s ! e)"
  using assms(2-) assms(1)[unfolded consistent_def]
  by (simp add: swap_consistent_eq[OF assms(1-3)] nth_list_update)

lemma swap_NODE_DATA:
  assumes "consistent n s" "i < n" "j < n" "a < n"
  shows "NODE_DATA (swap i j s) ! a =
    (if a = PTR_NODES s ! j then i else if a = PTR_NODES s ! i then j else NODE_DATA s ! a)"
  using assms(2-) assms(1)[unfolded consistent_def]
  by (simp add: swap_consistent_eq[OF assms(1-3)] nth_list_update)

lemma swap_POINTS:
  assumes "consistent n s" "i < n" "j < n" "e < n"
  shows "POINTS (swap i j s) ! e =
    (if e = j then (POINTS s ! j)\<lparr>cluster := cluster (POINTS s ! i)\<rparr>
     else if e = i then (POINTS s ! i)\<lparr>cluster := cluster (POINTS s ! j)\<rparr>
     else POINTS s ! e)"
  using assms(2-) assms(1)[unfolded consistent_def]
  by (simp add: swap_consistent_eq[OF assms(1-3)] nth_list_update)

lemma swap_lengths:
  assumes "consistent n s" "i < n" "j < n"
  shows "length (POINTS (swap i j s)) = n" "length (NODE_DATA (swap i j s)) = n"
    "length (PTR_NODES (swap i j s)) = n" "CHAINS (swap i j s) = CHAINS s"
  using assms(1)[unfolded consistent_def]
  by (simp_all add: swap_consistent_eq[OF assms(1-3)])

lemma swap_consistent:
  assumes c: "consistent n s" and i: "i < n" and j: "j < n"
  shows "consistent n (swap i j s)"
proof -
  let ?one = "PTR_NODES s ! i" and ?two = "PTR_NODES s ! j"
  have fw: "ID (POINTS s ! e) = e" "PTR_NODES s ! e < n" "NODE_DATA s ! (PTR_NODES s ! e) = e"
    if "e < n" for e using c that by (simp_all add: consistent_def)
  have bw: "NODE_DATA s ! a < n" "PTR_NODES s ! (NODE_DATA s ! a) = a"
    if "a < n" for a using c that by (simp_all add: consistent_def)
  have one_two: "?one = ?two \<longleftrightarrow> i = j"
    using consistent_inj[OF c i j] by auto
  have A: "ID (POINTS (swap i j s) ! e) = e \<and> PTR_NODES (swap i j s) ! e < n \<and>
           NODE_DATA (swap i j s) ! (PTR_NODES (swap i j s) ! e) = e" if e: "e < n" for e
  proof -
    have 1: "ID (POINTS (swap i j s) ! e) = e"
      using fw(1)[OF e] fw(1)[OF i] fw(1)[OF j] e by (simp add: swap_POINTS[OF c i j])
    have 2: "PTR_NODES (swap i j s) ! e < n"
      using fw(2)[OF e] fw(2)[OF i] fw(2)[OF j] e by (simp add: swap_PTR_NODES[OF c i j])
    have 3: "NODE_DATA (swap i j s) ! (PTR_NODES (swap i j s) ! e) = e"
    proof -
      consider "e = j" | "e \<noteq> j" "e = i" | "e \<noteq> j" "e \<noteq> i" by blast
      then show ?thesis
      proof cases
        case 1
        then show ?thesis
          using one_two i j e fw(2)[OF i] fw(2)[OF j] fw(3)[OF i] fw(3)[OF j] by (simp add: swap_PTR_NODES[OF c i j] swap_NODE_DATA[OF c i j])
      next
        case 2
        then show ?thesis
          using one_two i j e fw(2)[OF i] fw(2)[OF j] fw(3)[OF i] fw(3)[OF j] by (simp add: swap_PTR_NODES[OF c i j] swap_NODE_DATA[OF c i j])
      next
        case 3
        then have "PTR_NODES s ! e \<noteq> ?one" "PTR_NODES s ! e \<noteq> ?two"
          using consistent_inj[OF c e i] consistent_inj[OF c e j] by auto
        with 3 show ?thesis
          using fw(3)[OF e] fw(2)[OF e] e
          by (simp add: swap_PTR_NODES[OF c i j] swap_NODE_DATA[OF c i j])
      qed
    qed
    from 1 2 3 show ?thesis by simp
  qed
  have B: "NODE_DATA (swap i j s) ! a < n \<and>
           PTR_NODES (swap i j s) ! (NODE_DATA (swap i j s) ! a) = a" if a: "a < n" for a
  proof -
    have 1: "NODE_DATA (swap i j s) ! a < n"
      using bw(1)[OF a] i j a by (simp add: swap_NODE_DATA[OF c i j])
    have 2: "PTR_NODES (swap i j s) ! (NODE_DATA (swap i j s) ! a) = a"
    proof -
      consider "a = ?two" | "a \<noteq> ?two" "a = ?one" | "a \<noteq> ?two" "a \<noteq> ?one" by blast
      then show ?thesis
      proof cases
        case 1
        then show ?thesis
          using a i j by (simp add: swap_NODE_DATA[OF c i j] swap_PTR_NODES[OF c i j])
      next
        case 2
        then show ?thesis
          using a i j by (simp add: swap_NODE_DATA[OF c i j] swap_PTR_NODES[OF c i j])
      next
        case 3
        then have "NODE_DATA s ! a \<noteq> i" "NODE_DATA s ! a \<noteq> j"
          using bw(2)[OF a] by auto
        with 3 show ?thesis
          using bw(2)[OF a] bw(1)[OF a] a
          by (simp add: swap_NODE_DATA[OF c i j] swap_PTR_NODES[OF c i j])
      qed
    qed
    from 1 2 show ?thesis by simp
  qed
  from A B swap_lengths(1-3)[OF c i j] show ?thesis
    unfolding consistent_def by blast
qed

lemma swap_swap:
  assumes c: "consistent n s" and i: "i < n" and j: "j < n"
  shows "swap i j (swap i j s) = s"
proof -
  note c' = swap_consistent[OF c i j]
  have len: "length (POINTS s) = n" "length (NODE_DATA s) = n" "length (PTR_NODES s) = n"
    using c by (simp_all add: consistent_def)
  have fw: "PTR_NODES s ! e < n" "NODE_DATA s ! (PTR_NODES s ! e) = e"
    if "e < n" for e using c that by (simp_all add: consistent_def)
  have one_two: "PTR_NODES s ! i = PTR_NODES s ! j \<longleftrightarrow> i = j"
    using consistent_inj[OF c i j] by auto
  have P: "POINTS (swap i j (swap i j s)) = POINTS s"
  proof (rule nth_equalityI)
    show "length (POINTS (swap i j (swap i j s))) = length (POINTS s)"
      using swap_lengths(1)[OF c' i j] len by simp
  next
    fix e assume "e < length (POINTS (swap i j (swap i j s)))"
    then have e: "e < n" using swap_lengths(1)[OF c' i j] by simp
    show "POINTS (swap i j (swap i j s)) ! e = POINTS s ! e"
      using e i j by (simp add: swap_POINTS[OF c' i j] swap_POINTS[OF c i j] cluster_update_same)
  qed
  have T: "PTR_NODES (swap i j (swap i j s)) = PTR_NODES s"
  proof (rule nth_equalityI)
    show "length (PTR_NODES (swap i j (swap i j s))) = length (PTR_NODES s)"
      using swap_lengths(3)[OF c' i j] len by simp
  next
    fix e assume "e < length (PTR_NODES (swap i j (swap i j s)))"
    then have e: "e < n" using swap_lengths(3)[OF c' i j] by simp
    show "PTR_NODES (swap i j (swap i j s)) ! e = PTR_NODES s ! e"
      using e i j by (simp add: swap_PTR_NODES[OF c' i j] swap_PTR_NODES[OF c i j])
  qed
  have D: "NODE_DATA (swap i j (swap i j s)) = NODE_DATA s"
  proof (rule nth_equalityI)
    show "length (NODE_DATA (swap i j (swap i j s))) = length (NODE_DATA s)"
      using swap_lengths(2)[OF c' i j] len by simp
  next
    fix a assume "a < length (NODE_DATA (swap i j (swap i j s)))"
    then have a: "a < n" using swap_lengths(2)[OF c' i j] by simp
    show "NODE_DATA (swap i j (swap i j s)) ! a = NODE_DATA s ! a"
      using a i j fw(1)[OF i] fw(1)[OF j] fw(2)[OF i] fw(2)[OF j] one_two
      by (auto simp add: swap_NODE_DATA[OF c' i j] swap_NODE_DATA[OF c i j] swap_PTR_NODES[OF c i j])
  qed
  have C: "CHAINS (swap i j (swap i j s)) = CHAINS s"
    using swap_lengths(4)[OF c' i j] swap_lengths(4)[OF c i j] by simp
  from P T D C show ?thesis by (simp add: membership.equality)
qed

lemma append_element_to_cluster_eq:
  "append_element_to_cluster ok c e s w =
     (if ok (mallocs w)
      then (Some (length (NODE_DATA s)),
            s\<lparr>NODE_DATA := NODE_DATA s @ [e],
              CHAINS := (CHAINS s)[c := length (NODE_DATA s) # CHAINS s ! c]\<rparr>,
            w\<lparr>mallocs := Suc (mallocs w)\<rparr>)
      else (None, s\<lparr>CHAINS := (CHAINS s)[c := []]\<rparr>, w\<lparr>mallocs := Suc (mallocs w)\<rparr>))"
  by (simp add: append_element_to_cluster_def malloc_def split: list.split)

lemma filled_step:
  assumes f: "filled k clusters points i s" and c: "clusters ! i < k"
  shows "filled k clusters points (Suc i)
     (s\<lparr>NODE_DATA := NODE_DATA s @ [i],
        CHAINS := (CHAINS s)[clusters ! i := length (NODE_DATA s) # CHAINS s ! (clusters ! i)],
        PTR_NODES := PTR_NODES s @ [length (NODE_DATA s)]\<rparr>)"
proof -
  have len: "length (NODE_DATA s) = i" using f by (simp add: filled_def)
  have ch: "distinct (CHAINS s ! c')" "set (CHAINS s ! c') = {a. a < i \<and> clusters ! a = c'}"
    if "c' < k" for c' using f that by (simp_all add: filled_def)
  have k: "length (CHAINS s) = k" using f by (simp add: filled_def)
  have "distinct ((CHAINS s)[clusters ! i := i # CHAINS s ! (clusters ! i)] ! c') \<and>
        set ((CHAINS s)[clusters ! i := i # CHAINS s ! (clusters ! i)] ! c') =
          {a. a < Suc i \<and> clusters ! a = c'}" if c': "c' < k" for c'
  proof (cases "c' = clusters ! i")
    case True
    then show ?thesis using ch[OF c'] k c' by (auto simp: less_Suc_eq)
  next
    case False
    then show ?thesis using ch[OF c'] k c' by (auto simp: less_Suc_eq)
  qed
  then show ?thesis
    using f by (simp add: filled_def len)
qed

lemma fill_cluster_lists_loop_filled:
  assumes "fill_cluster_lists_loop ok clusters [i..<n] s w = (Some s', w')"
    and "filled k clusters points i s" and "\<forall>e<n. clusters ! e < k" and "i \<le> n"
  shows "filled k clusters points n s'"
  using assms
proof (induction "n - i" arbitrary: i s w)
  case 0
  then show ?case by simp
next
  case (Suc d)
  then have lt: "i < n" by simp
  then have up: "[i..<n] = i # [Suc i..<n]" by (simp add: upt_conv_Cons)
  have len: "length (NODE_DATA s) = i" using Suc.prems(2) by (simp add: filled_def)
  from Suc.prems(1) have okm: "ok (mallocs w)"
    by (auto simp: up append_element_to_cluster_eq split: if_splits)
  let ?s = "s\<lparr>NODE_DATA := NODE_DATA s @ [i],
        CHAINS := (CHAINS s)[clusters ! i := length (NODE_DATA s) # CHAINS s ! (clusters ! i)],
        PTR_NODES := PTR_NODES s @ [length (NODE_DATA s)]\<rparr>"
  from Suc.prems(1) okm
  have run: "fill_cluster_lists_loop ok clusters [Suc i..<n] ?s (w\<lparr>mallocs := Suc (mallocs w)\<rparr>) = (Some s', w')"
    by (simp add: up append_element_to_cluster_eq)
  have "filled k clusters points (Suc i) ?s"
    using filled_step[OF Suc.prems(2)] Suc.prems(3) lt by blast
  from Suc.hyps(1)[OF _ run this Suc.prems(3)] Suc.hyps(2) lt show ?case by simp
qed

lemma filled_consistent:
  assumes "filled k clusters points n s" and "points_ok n k clusters points"
  shows "consistent n s" "chains_ok n k s"
  using assms by (auto simp: filled_def points_ok_def consistent_def chains_ok_def)

lemma fill_cluster_lists_consistent:
  assumes "fill_cluster_lists ok n k clusters points (replicate k []) w = (Some s, w')"
    and "points_ok n k clusters points"
  shows "consistent n s" "chains_ok n k s"
proof -
  have "filled k clusters points 0 \<lparr>POINTS = points, NODE_DATA = [], PTR_NODES = [], CHAINS = replicate k []\<rparr>"
    by (simp add: filled_def)
  from fill_cluster_lists_loop_filled[OF assms(1)[unfolded fill_cluster_lists_def] this]
  have "filled k clusters points n s" using assms(2) by (simp add: points_ok_def)
  from filled_consistent[OF this assms(2)] show "consistent n s" "chains_ok n k s" .
qed

lemma swap_node_cluster:
  assumes c: "consistent n s" and i: "i < n" and j: "j < n" and a: "a < n"
  shows "cluster (POINTS (swap i j s) ! (NODE_DATA (swap i j s) ! a)) = cluster (POINTS s ! (NODE_DATA s ! a))"
proof -
  have fw: "PTR_NODES s ! e < n" "NODE_DATA s ! (PTR_NODES s ! e) = e"
    if "e < n" for e using c that by (simp_all add: consistent_def)
  have bw: "NODE_DATA s ! a < n" "PTR_NODES s ! (NODE_DATA s ! a) = a"
    using c a by (simp_all add: consistent_def)
  show ?thesis
    using a i j fw[OF i] fw[OF j] bw
    by (auto simp add: swap_NODE_DATA[OF c i j] swap_POINTS[OF c i j])
qed

lemma swap_chains_ok:
  assumes c: "consistent n s" and i: "i < n" and j: "j < n" and ch: "chains_ok n k s"
  shows "chains_ok n k (swap i j s)"
  using ch swap_node_cluster[OF c i j] swap_lengths(4)[OF c i j]
  unfolding chains_ok_def by auto

lemma reachable_consistent:
  assumes "reachable n k clusters points s" and "points_ok n k clusters points"
  shows "consistent n s \<and> chains_ok n k s"
  using assms
proof (induction rule: reachable.induct)
  case (init ok w s w')
  then show ?case using fill_cluster_lists_consistent by blast
next
  case (step s i j)
  then show ?case using swap_consistent swap_chains_ok by blast
qed


section \<open>Arrays, allocation and the variance entry point\<close>

lemma copy_array_id: "length xs = n \<Longrightarrow> copy_array n xs = xs"
  by (auto simp: copy_array_def intro: nth_equalityI)

lemma length_copy_array: "length (copy_array n xs) = n"
  by (simp add: copy_array_def)

lemma fold_add_sum_list: "fold (\<lambda>x acc. acc + f x) xs (a::real) = a + sum_list (map f xs)"
  by (induction xs arbitrary: a) simp_all

lemma array_sum_eq: "array_sum k xs = (\<Sum>i\<leftarrow>[0..<k]. xs ! i)"
  by (simp add: array_sum_def fold_add_sum_list)

lemma array_sum_nonneg: "(\<forall>i<k. 0 \<le> xs ! i) \<Longrightarrow> 0 \<le> array_sum k xs"
  by (auto simp: array_sum_eq intro!: sum_list_nonneg)

lemma euclidean_squared_nonneg: "0 \<le> euclidean_squared x y m"
  by (auto simp: euclidean_squared_def fold_add_sum_list intro!: sum_list_nonneg)

lemma cluster_variance_nonneg: "0 \<le> cluster_variance m HEAD center s"
  by (auto simp: cluster_variance_def fold_add_sum_list euclidean_squared_nonneg intro!: sum_list_nonneg)

lemma write_output_eq:
  "length cl = n \<Longrightarrow>
   write_output n s cl = map (\<lambda>i. cluster (POINTS s ! (NODE_DATA s ! (PTR_NODES s ! i)))) [0..<n]"
proof -
  have "i \<le> length cl \<Longrightarrow> fold (\<lambda>i cl. cl[i := f i]) [0..<i] cl = map f [0..<i] @ drop i cl" for i and f :: "nat \<Rightarrow> nat"
  proof (induction i)
    case 0
    then show ?case by simp
  next
    case (Suc i)
    then have "i < length cl" by simp
    then have "(map f [0..<i] @ drop i cl)[i := f i] = map f [0..<i] @ f i # drop (Suc i) cl"
      by (simp add: list_update_append upd_conv_take_nth_drop)
    with Suc show ?case by simp
  qed
  from this[of n] show "length cl = n \<Longrightarrow> ?thesis" by (simp add: write_output_def)
qed

lemma write_output_consistent:
  assumes "length cl = n" "consistent n s"
  shows "write_output n s cl = map cluster (POINTS s)"
proof -
  have "map (\<lambda>i. cluster (POINTS s ! (NODE_DATA s ! (PTR_NODES s ! i)))) [0..<n] = map (\<lambda>i. cluster (POINTS s ! i)) [0..<n]"
    using assms(2) by (simp add: consistent_def)
  also have "\<dots> = map cluster (POINTS s)"
    using assms(2) by (auto simp: consistent_def intro: nth_equalityI)
  finally show ?thesis using write_output_eq[OF assms(1)] by simp
qed

lemma swap_mset_cluster:
  assumes c: "consistent n s" and i: "i < n" and j: "j < n"
  shows "mset (map cluster (POINTS (swap i j s))) = mset (map cluster (POINTS s))"
proof -
  have len: "length (POINTS s) = n" using c by (simp add: consistent_def)
  have "map cluster (POINTS (swap i j s)) =
        (map cluster (POINTS s))[i := map cluster (POINTS s) ! j, j := map cluster (POINTS s) ! i]"
    using len i j by (simp add: swap_consistent_eq[OF c i j] map_update)
  moreover have "mset ((map cluster (POINTS s))[i := map cluster (POINTS s) ! j, j := map cluster (POINTS s) ! i])
      = mset (map cluster (POINTS s))"
    using len i j by (intro mset_swap) simp_all
  ultimately show ?thesis by simp
qed

lemma swap_category:
  assumes c: "consistent n s" and i: "i < n" and j: "j < n"
  shows "map category (POINTS (swap i j s)) = map category (POINTS s)"
proof -
  have len: "length (POINTS s) = n" using c by (simp add: consistent_def)
  show ?thesis
    using len i j
    by (auto simp add: swap_consistent_eq[OF c i j] nth_list_update intro!: nth_equalityI)
qed

lemma swap_mset_category_cluster:
  assumes c: "consistent n s" and i: "i < n" and j: "j < n"
    and cat: "category (POINTS s ! i) = category (POINTS s ! j)"
  shows "mset (map (\<lambda>e. (category e, cluster e)) (POINTS (swap i j s))) =
         mset (map (\<lambda>e. (category e, cluster e)) (POINTS s))"
proof -
  let ?f = "\<lambda>e. (category e, cluster e)"
  have len: "length (POINTS s) = n" using c by (simp add: consistent_def)
  have "map ?f (POINTS (swap i j s)) =
        (map ?f (POINTS s))[i := map ?f (POINTS s) ! j, j := map ?f (POINTS s) ! i]"
    using len i j cat by (simp add: swap_consistent_eq[OF c i j] map_update)
  moreover have "mset ((map ?f (POINTS s))[i := map ?f (POINTS s) ! j, j := map ?f (POINTS s) ! i])
      = mset (map ?f (POINTS s))"
    using len i j by (intro mset_swap) simp_all
  ultimately show ?thesis by simp
qed

lemma var_improved_refl: "var_improved J st st"
  by (simp add: var_improved_def)

lemma var_improvedI:
  "j \<in> J \<Longrightarrow> best_objective st < bo \<Longrightarrow>
   var_improved J st (st\<lparr>best_objective := bo, best_centers := bc, best_objectives := bos,
                 best_partner := Some j\<rparr>)"
  unfolding var_improved_def by blast

lemma var_improved_trans:
  assumes a: "var_improved J st st'" and b: "var_improved J' st' st''"
  shows "var_improved (J \<union> J') st st''"
proof -
  from a consider "st' = st" |
    bo bc bos j where "j \<in> J" "best_objective st < bo"
      "st' = st\<lparr>best_objective := bo, best_centers := bc, best_objectives := bos, best_partner := Some j\<rparr>"
    unfolding var_improved_def by blast
  then show ?thesis
  proof cases
    case 1
    from b consider "st'' = st'" |
      bo bc bos j where "j \<in> J'" "best_objective st' < bo"
        "st'' = st'\<lparr>best_objective := bo, best_centers := bc, best_objectives := bos, best_partner := Some j\<rparr>"
      unfolding var_improved_def by blast
    then show ?thesis
    proof cases
      case 1
      with \<open>st' = st\<close> show ?thesis by (simp add: var_improved_refl)
    next
      case 2
      have "var_improved (J \<union> J') st (st\<lparr>best_objective := bo, best_centers := bc, best_objectives := bos, best_partner := Some j\<rparr>)"
        using 2(1,2) \<open>st' = st\<close> by (intro var_improvedI) simp_all
      with 2(3) \<open>st' = st\<close> show ?thesis by simp
    qed
  next
    case 2
    note A = 2
    from b consider "st'' = st'" |
      bo' bc' bos' j' where "j' \<in> J'" "best_objective st' < bo'"
        "st'' = st'\<lparr>best_objective := bo', best_centers := bc', best_objectives := bos', best_partner := Some j'\<rparr>"
      unfolding var_improved_def by blast
    then show ?thesis
    proof cases
      case 1
      have "var_improved (J \<union> J') st (st\<lparr>best_objective := bo, best_centers := bc, best_objectives := bos, best_partner := Some j\<rparr>)"
        using A(1,2) by (intro var_improvedI) simp_all
      with 1 A(3) show ?thesis by simp
    next
      case 2
      have lt: "best_objective st < bo'" using A(2,3) 2(2) by simp
      have eq: "st'' = st\<lparr>best_objective := bo', best_centers := bc', best_objectives := bos', best_partner := Some j'\<rparr>"
        unfolding 2(3) A(3) by simp
      have "var_improved (J \<union> J') st (st\<lparr>best_objective := bo', best_centers := bc', best_objectives := bos', best_partner := Some j'\<rparr>)"
        using 2(1) lt by (intro var_improvedI) simp_all
      with eq show ?thesis by simp
    qed
  qed
qed

lemma var_tentative_lists:
  "fst (var_tentative k m fr i j cl1 cl2 cs obj s) = swap i j s"
  by (simp add: var_tentative_def Let_def)

lemma var_partner_eq:
  assumes c: "consistent n (lists st)" and i: "i < n" and j: "j < n"
  shows "var_partner k m fr i cl1 j st =
    (let cl2 = cluster (POINTS (lists st) ! (NODE_DATA (lists st) ! (PTR_NODES (lists st) ! j)));
         t = var_tentative k m fr i j cl1 cl2 (CENTERS st) (OBJECTIVE_BY_CLUSTER st) (lists st)
     in if cl1 \<noteq> cl2 \<and> best_objective st < array_sum k (snd (snd t))
        then st\<lparr>best_objective := array_sum k (snd (snd t)),
                best_centers := copy_matrix k m (fst (snd t)),
                best_objectives := copy_array k (snd (snd t)),
                best_partner := Some j\<rparr>
        else st)"
proof -
  let ?cl2 = "cluster (POINTS (lists st) ! (NODE_DATA (lists st) ! (PTR_NODES (lists st) ! j)))"
  let ?t = "var_tentative k m fr i j cl1 ?cl2 (CENTERS st) (OBJECTIVE_BY_CLUSTER st) (lists st)"
  have s': "fst ?t = swap i j (lists st)" by (rule var_tentative_lists)
  show ?thesis
  proof (cases "cl1 = ?cl2")
    case True
    then show ?thesis by (simp add: var_partner_def)
  next
    case False
    show ?thesis
    proof (cases "best_objective st < array_sum k (snd (snd ?t))")
      case True
      with False show ?thesis
        using swap_swap[OF c i j] by (simp add: var_partner_def Let_def s')
    next
      case F2: False
      with False show ?thesis
        using swap_swap[OF c i j] by (simp add: var_partner_def Let_def s')
    qed
  qed
qed

lemma var_partner_improved:
  assumes c: "consistent n (lists st)" and i: "i < n" and j: "j < n"
  shows "var_improved {j} st (var_partner k m fr i cl1 j st)"
proof -
  let ?cl2 = "cluster (POINTS (lists st) ! (NODE_DATA (lists st) ! (PTR_NODES (lists st) ! j)))"
  let ?t = "var_tentative k m fr i j cl1 ?cl2 (CENTERS st) (OBJECTIVE_BY_CLUSTER st) (lists st)"
  show ?thesis
  proof (cases "cl1 \<noteq> ?cl2 \<and> best_objective st < array_sum k (snd (snd ?t))")
    case True
    have "var_partner k m fr i cl1 j st = st\<lparr>best_objective := array_sum k (snd (snd ?t)),
                best_centers := copy_matrix k m (fst (snd ?t)),
                best_objectives := copy_array k (snd (snd ?t)),
                best_partner := Some j\<rparr>"
      unfolding var_partner_eq[OF c i j] Let_def by (rule if_P[OF True])
    moreover have "var_improved {j} st (st\<lparr>best_objective := array_sum k (snd (snd ?t)),
                best_centers := copy_matrix k m (fst (snd ?t)),
                best_objectives := copy_array k (snd (snd ?t)),
                best_partner := Some j\<rparr>)"
      using True by (intro var_improvedI) simp_all
    ultimately show ?thesis by simp
  next
    case False
    have "var_partner k m fr i cl1 j st = st"
      unfolding var_partner_eq[OF c i j] Let_def by (rule if_not_P[OF False])
    then show ?thesis by (simp add: var_improved_refl)
  qed
qed

lemma var_improved_lists: "var_improved J st st' \<Longrightarrow> lists st' = lists st"
  by (auto simp: var_improved_def)

lemma var_fold_improved:
  assumes "consistent n (lists st)" "i < n" "\<forall>j\<in>set js. j < n"
  shows "var_improved (set js) st (fold (var_partner k m fr i cl1) js st)"
  using assms
proof (induction js arbitrary: st)
  case Nil
  then show ?case by (simp add: var_improved_def)
next
  case (Cons j js)
  let ?st = "var_partner k m fr i cl1 j st"
  have 1: "var_improved {j} st ?st"
    using var_partner_improved[OF Cons.prems(1,2)] Cons.prems(3) by simp
  then have "consistent n (lists ?st)" using Cons.prems(1) by (simp add: var_improved_lists)
  from Cons.IH[OF this Cons.prems(2)] Cons.prems(3)
  have "var_improved (set js) ?st (fold (var_partner k m fr i cl1) js ?st)" by simp
  from var_improved_trans[OF 1 this] show ?case by simp
qed

lemma var_round_ok:
  assumes c: "consistent n (lists st)" and s0: "0 \<le> SUM_VAR_OBJECTIVE st" and i: "i < n"
  shows "\<exists>st'. var_round n k m fr i st = Inr st' \<and> consistent n (lists st') \<and>
           0 \<le> SUM_VAR_OBJECTIVE st' \<and>
           mset (map cluster (POINTS (lists st'))) = mset (map cluster (POINTS (lists st)))"
proof -
  define cl1 where "cl1 = cluster (POINTS (lists st) ! (NODE_DATA (lists st) ! (PTR_NODES (lists st) ! i)))"
  define st0 where "st0 = st\<lparr>best_objective := 0, best_centers := copy_matrix k m (CENTERS st),
                 best_objectives := copy_array k (OBJECTIVE_BY_CLUSTER st)\<rparr>"
  define st1 where "st1 = fold (var_partner k m fr i cl1) [0..<n] st0"
  have c0: "consistent n (lists st0)" using c by (simp add: st0_def)
  have st1: "st1 = var_search n k m fr i st"
    by (simp add: var_search_def Let_def st1_def st0_def cl1_def)
  have imp: "var_improved (set [0..<n]) st0 st1"
    unfolding st1_def by (rule var_fold_improved[OF c0 i]) simp
  have R: "var_round n k m fr i st =
    (if best_objective st1 > SUM_VAR_OBJECTIVE st1
        then (case best_partner st1 of
                None \<Rightarrow> Inl Uninitialized_best_partner
              | Some b \<Rightarrow>
                  Inr (st1\<lparr>lists := swap i b (lists st1),
                          SUM_VAR_OBJECTIVE := best_objective st1,
                          CENTERS := copy_matrix k m (best_centers st1),
                          OBJECTIVE_BY_CLUSTER := copy_array k (best_objectives st1)\<rparr>))
        else Inr st1)"
    unfolding var_round_def Let_def st1 by (rule refl)
  from imp consider "st1 = st0" |
    bo bc bos j where "j \<in> set [0..<n]" "best_objective st0 < bo"
      "st1 = st0\<lparr>best_objective := bo, best_centers := bc, best_objectives := bos, best_partner := Some j\<rparr>"
    unfolding var_improved_def by blast
  then show ?thesis
  proof cases
    case 1
    then have "var_round n k m fr i st = Inr st0"
      using s0 by (simp add: R st0_def)
    then show ?thesis using c s0 by (simp add: st0_def)
  next
    case 2
    have j: "j < n" using 2(1) by simp
    have l1: "lists st1 = lists st" "SUM_VAR_OBJECTIVE st1 = SUM_VAR_OBJECTIVE st"
      "best_partner st1 = Some j" "best_objective st1 = bo"
      by (simp_all add: 2(3) st0_def)
    show ?thesis
    proof (cases "best_objective st1 > SUM_VAR_OBJECTIVE st1")
      case True
      then have "var_round n k m fr i st = Inr (st1\<lparr>lists := swap i j (lists st1),
                          SUM_VAR_OBJECTIVE := best_objective st1,
                          CENTERS := copy_matrix k m (best_centers st1),
                          OBJECTIVE_BY_CLUSTER := copy_array k (best_objectives st1)\<rparr>)"
        by (simp add: R l1)
      moreover have "consistent n (swap i j (lists st))" using swap_consistent[OF c i j] .
      moreover have "0 \<le> best_objective st1" using True s0 l1 by simp
      ultimately show ?thesis using swap_mset_cluster[OF c i j] by (simp add: l1)
    next
      case False
      then have "var_round n k m fr i st = Inr st1" by (simp add: R)
      then show ?thesis using c s0 l1 by simp
    qed
  qed
qed

lemma var_rounds_ok:
  assumes "consistent n (lists st)" "0 \<le> SUM_VAR_OBJECTIVE st" "\<forall>i\<in>set is. i < n"
  shows "\<exists>st'. var_rounds n k m fr is st = Inr st' \<and> consistent n (lists st') \<and>
           mset (map cluster (POINTS (lists st'))) = mset (map cluster (POINTS (lists st)))"
  using assms
proof (induction "is" arbitrary: st)
  case Nil
  then show ?case by simp
next
  case (Cons i "is")
  from var_round_ok[OF Cons.prems(1,2), of i k m fr] Cons.prems(3)
  obtain st1 where 1: "var_round n k m fr i st = Inr st1" "consistent n (lists st1)"
    "0 \<le> SUM_VAR_OBJECTIVE st1"
    "mset (map cluster (POINTS (lists st1))) = mset (map cluster (POINTS (lists st)))"
    by auto
  from Cons.IH[OF 1(2,3)] Cons.prems(3)
  obtain st' where 2: "var_rounds n k m fr is st1 = Inr st'" "consistent n (lists st')"
    "mset (map cluster (POINTS (lists st'))) = mset (map cluster (POINTS (lists st1)))"
    by auto
  from 1 2 show ?case by simp
qed

lemma all_ok_0: "all_ok ok t 0"
  by (simp add: all_ok_def)

lemma all_ok_Suc: "all_ok ok t (Suc cnt) \<longleftrightarrow> ok t \<and> all_ok ok (Suc t) cnt"
proof
  assume a: "all_ok ok t (Suc cnt)"
  then have "ok (t + 0)" unfolding all_ok_def by blast
  moreover have "ok (Suc t + x)" if "x < cnt" for x
    using a that unfolding all_ok_def by (metis Suc_less_eq add_Suc_shift)
  ultimately show "ok t \<and> all_ok ok (Suc t) cnt" by (simp add: all_ok_def)
next
  assume a: "ok t \<and> all_ok ok (Suc t) cnt"
  show "all_ok ok t (Suc cnt)"
    unfolding all_ok_def
  proof (intro allI impI)
    fix x assume "x < Suc cnt"
    then show "ok (t + x)" using a by (cases x) (auto simp: all_ok_def)
  qed
qed

lemma all_ok_add: "all_ok ok t (a + b) \<longleftrightarrow> all_ok ok t a \<and> all_ok ok (t + a) b"
proof (induction a arbitrary: t)
  case 0
  then show ?case by (simp add: all_ok_0)
next
  case (Suc a)
  then show ?case by (simp add: all_ok_Suc)
qed

lemma all_ok_mono: "all_ok ok t b \<Longrightarrow> a \<le> b \<Longrightarrow> all_ok ok t a"
  by (simp add: all_ok_def)

lemma all_ok_nth: "all_ok ok t b \<Longrightarrow> x < b \<Longrightarrow> ok (t + x)"
  by (simp add: all_ok_def)

lemma fill_data_points_loop_ok:
  assumes "all_ok ok (mallocs w) (length is)"
  shows "\<exists>ps. fill_data_points_loop ok dat n m cl is mp pts w
            = (Inr (Some (pts @ ps)), w\<lparr>mallocs := mallocs w + length is\<rparr>) \<and>
          map ID ps = is \<and> map cluster ps = map (\<lambda>i. cl ! i) is"
  using assms
proof (induction "is" arbitrary: mp pts w)
  case Nil
  then show ?case by simp
next
  case (Cons i "is")
  from Cons.prems have ok: "ok (mallocs w)" and rest: "all_ok ok (mallocs (w\<lparr>mallocs := Suc (mallocs w)\<rparr>)) (length is)"
    by (simp_all add: all_ok_Suc)
  obtain row mp' where rr: "read_row dat m mp = (row, mp')" by (cases "read_row dat m mp")
  let ?p = "\<lparr>ID = i, cluster = cl ! i, category = 0, vals = row\<rparr>"
  from Cons.IH[OF rest, of mp' "pts @ [?p]"]
  obtain ps where ps: "fill_data_points_loop ok dat n m cl is mp' (pts @ [?p]) (w\<lparr>mallocs := Suc (mallocs w)\<rparr>)
            = (Inr (Some ((pts @ [?p]) @ ps)), w\<lparr>mallocs := Suc (mallocs w) + length is\<rparr>)"
    "map ID ps = is" "map cluster ps = map (\<lambda>i. cl ! i) is"
    by auto
  have "fill_data_points_loop ok dat n m cl (i # is) mp pts w
      = (Inr (Some (pts @ (?p # ps))), w\<lparr>mallocs := mallocs w + length (i # is)\<rparr>)"
    using ok rr ps(1) by (simp add: malloc_def)
  with ps(2,3) show ?case by (intro exI[of _ "?p # ps"]) simp
qed

text \<open>
  When an allocation of \<^verbatim>\<open>fill_data_points\<close> fails, the clean-up frees pointers that were
  never assigned, unless the failing element is the last one.
\<close>

lemma fill_data_points_loop_fail:
  assumes "\<not> all_ok ok (mallocs w) (length is)" and "length pts + length is = n"
  shows "(\<exists>w'. fill_data_points_loop ok dat n m cl is mp pts w = (Inl Uninitialized_pointer_freed, w') \<and>
               \<not> all_ok ok (mallocs w) (length is - 1)) \<or>
         (\<exists>w'. fill_data_points_loop ok dat n m cl is mp pts w = (Inr None, w') \<and> oom w w' \<and>
               all_ok ok (mallocs w) (length is - 1))"
  using assms
proof (induction "is" arbitrary: mp pts w)
  case Nil
  then show ?case by (simp add: all_ok_0)
next
  case (Cons i "is")
  show ?case
  proof (cases "ok (mallocs w)")
    case False
    show ?thesis
    proof (cases "is")
      case Nil
      with False Cons.prems(2) show ?thesis
        by (simp add: malloc_def oom_def print_memory_error_def free_points_def all_ok_0)
    next
      case (Cons i' is')
      then have "Suc (length pts) < n" using Cons.prems(2) by auto
      moreover have "\<not> all_ok ok (mallocs w) (length (i # is) - 1)"
        using False Cons by (simp add: all_ok_Suc)
      ultimately show ?thesis using False
        by (simp add: malloc_def free_points_def)
    qed
  next
    case True
    with Cons.prems have rest: "\<not> all_ok ok (mallocs (w\<lparr>mallocs := Suc (mallocs w)\<rparr>)) (length is)"
      by (simp add: all_ok_Suc)
    then have ne: "is \<noteq> []" by (auto simp: all_ok_0)
    then obtain l where l: "length is = Suc l" by (cases "is") auto
    obtain row mp' where rr: "read_row dat m mp = (row, mp')" by (cases "read_row dat m mp")
    let ?p = "\<lparr>ID = i, cluster = cl ! i, category = 0, vals = row\<rparr>"
    let ?w = "w\<lparr>mallocs := Suc (mallocs w)\<rparr>"
    have len: "length (pts @ [?p]) + length is = n" using Cons.prems(2) by simp
    have step: "fill_data_points_loop ok dat n m cl (i # is) mp pts w
        = fill_data_points_loop ok dat n m cl is mp' (pts @ [?p]) ?w"
      using True rr by (simp add: malloc_def)
    have shift: "all_ok ok (mallocs w) (length (i # is) - 1) \<longleftrightarrow> all_ok ok (mallocs ?w) (length is - 1)"
      using True l by (simp add: all_ok_Suc)
    from Cons.IH[OF rest len, of mp']
    show ?thesis
    proof (elim disjE exE conjE)
      fix w' assume "fill_data_points_loop ok dat n m cl is mp' (pts @ [?p]) ?w
          = (Inl Uninitialized_pointer_freed, w')" "\<not> all_ok ok (mallocs ?w) (length is - 1)"
      with step shift show ?thesis by simp
    next
      fix w' assume r: "fill_data_points_loop ok dat n m cl is mp' (pts @ [?p]) ?w = (Inr None, w')"
        and o: "oom ?w w'" and a: "all_ok ok (mallocs ?w) (length is - 1)"
      have "oom w w'" using o by (simp add: oom_def)
      then show ?thesis using step r a shift by simp
    qed
  qed
qed

lemma initialize_cluster_heads_loop_ok:
  assumes "all_ok ok (mallocs w) (length is)"
  shows "initialize_cluster_heads_loop ok n k points is hs w
            = (Inr (Some (hs @ replicate (length is) [])), w\<lparr>mallocs := mallocs w + length is\<rparr>)"
  using assms
proof (induction "is" arbitrary: hs w)
  case Nil
  then show ?case by simp
next
  case (Cons i "is")
  from Cons.prems have ok: "ok (mallocs w)" and rest: "all_ok ok (mallocs (w\<lparr>mallocs := Suc (mallocs w)\<rparr>)) (length is)"
    by (simp_all add: all_ok_Suc)
  from Cons.IH[OF rest, of "hs @ [[]]"] ok show ?case
    by (simp add: malloc_def replicate_app_Cons_same)
qed

text \<open>
  When an allocation of \<^verbatim>\<open>initialize_cluster_heads\<close> fails, \<^verbatim>\<open>free_nodes\<close> reads the
  \<^verbatim>\<open>next\<close> field of the head that could not be allocated.
\<close>

lemma initialize_cluster_heads_loop_fail:
  assumes "\<not> all_ok ok (mallocs w) (length is)" and "length hs + length is = k"
    and "n \<le> length points"
  shows "\<exists>w'. initialize_cluster_heads_loop ok n k points is hs w = (Inl Null_pointer_dereferenced, w')"
  using assms(1,2)
proof (induction "is" arbitrary: hs w)
  case Nil
  then show ?case by (simp add: all_ok_0)
next
  case (Cons i "is")
  show ?case
  proof (cases "ok (mallocs w)")
    case False
    then show ?thesis using Cons.prems(2) assms(3)
      by (simp add: malloc_def free_points_def free_nodes_def)
  next
    case True
    with Cons.prems have rest: "\<not> all_ok ok (mallocs (w\<lparr>mallocs := Suc (mallocs w)\<rparr>)) (length is)"
      by (simp add: all_ok_Suc)
    have len: "length (hs @ [[]]) + length is = k" using Cons.prems(2) by simp
    from Cons.IH[OF rest len] True show ?thesis by (simp add: malloc_def)
  qed
qed

lemma dist_initialize_cluster_heads_loop_ok:
  assumes "all_ok ok (mallocs w) (length is)"
  shows "dist_initialize_cluster_heads_loop ok is hs w
            = (Some (hs @ replicate (length is) []), w\<lparr>mallocs := mallocs w + length is\<rparr>)"
  using assms
proof (induction "is" arbitrary: hs w)
  case Nil
  then show ?case by simp
next
  case (Cons i "is")
  from Cons.prems have ok: "ok (mallocs w)" and rest: "all_ok ok (mallocs (w\<lparr>mallocs := Suc (mallocs w)\<rparr>)) (length is)"
    by (simp_all add: all_ok_Suc)
  from Cons.IH[OF rest, of "hs @ [[]]"] ok show ?case
    by (simp add: malloc_def replicate_app_Cons_same)
qed

lemma dist_initialize_cluster_heads_loop_fail:
  assumes "\<not> all_ok ok (mallocs w) (length is)"
  shows "\<exists>w'. dist_initialize_cluster_heads_loop ok is hs w = (None, w') \<and> oom w w'"
  using assms
proof (induction "is" arbitrary: hs w)
  case Nil
  then show ?case by (simp add: all_ok_0)
next
  case (Cons i "is")
  show ?case
  proof (cases "ok (mallocs w)")
    case False
    then show ?thesis by (simp add: malloc_def oom_def print_memory_error_def)
  next
    case True
    with Cons.prems have rest: "\<not> all_ok ok (mallocs (w\<lparr>mallocs := Suc (mallocs w)\<rparr>)) (length is)"
      by (simp add: all_ok_Suc)
    from Cons.IH[OF rest] True show ?thesis by (simp add: malloc_def oom_def)
  qed
qed

lemma fill_cluster_lists_loop_ok:
  assumes "all_ok ok (mallocs w) (length is)"
  shows "\<exists>s'. fill_cluster_lists_loop ok cl is s w = (Some s', w\<lparr>mallocs := mallocs w + length is\<rparr>)"
  using assms
proof (induction "is" arbitrary: s w)
  case Nil
  then show ?case by simp
next
  case (Cons i "is")
  from Cons.prems have ok: "ok (mallocs w)" and rest: "all_ok ok (mallocs (w\<lparr>mallocs := Suc (mallocs w)\<rparr>)) (length is)"
    by (simp_all add: all_ok_Suc)
  from Cons.IH[OF rest] ok show ?case
    by (simp add: append_element_to_cluster_eq)
qed

lemma fill_cluster_lists_loop_fail:
  assumes "\<not> all_ok ok (mallocs w) (length is)"
  shows "\<exists>w'. fill_cluster_lists_loop ok cl is s w = (None, w') \<and> oom w w'"
  using assms
proof (induction "is" arbitrary: s w)
  case Nil
  then show ?case by (simp add: all_ok_0)
next
  case (Cons i "is")
  show ?case
  proof (cases "ok (mallocs w)")
    case False
    then show ?thesis by (simp add: append_element_to_cluster_eq oom_def print_memory_error_def)
  next
    case True
    with Cons.prems have rest: "\<not> all_ok ok (mallocs (w\<lparr>mallocs := Suc (mallocs w)\<rparr>)) (length is)"
      by (simp add: all_ok_Suc)
    from Cons.IH[OF rest] True show ?thesis by (simp add: append_element_to_cluster_eq oom_def)
  qed
qed

lemma fill_cluster_lists_filled:
  assumes "fill_cluster_lists ok n k cl points (replicate k []) w = (Some s, w')"
    and "points_ok n k cl points"
  shows "filled k cl points n s"
proof -
  have "filled k cl points 0 \<lparr>POINTS = points, NODE_DATA = [], PTR_NODES = [], CHAINS = replicate k []\<rparr>"
    by (simp add: filled_def)
  from fill_cluster_lists_loop_filled[OF assms(1)[unfolded fill_cluster_lists_def] this]
  show ?thesis using assms(2) by (simp add: points_ok_def)
qed

lemma points_okI:
  assumes "map ID ps = [0..<n]" "map cluster ps = map (\<lambda>i. cl ! i) [0..<n]" "clusters_ok n k cl"
  shows "points_ok n k cl ps"
proof -
  have len: "length ps = n" using assms(1) by (metis length_map length_upt minus_nat.diff_0)
  have "ID (ps ! e) = e \<and> cluster (ps ! e) = cl ! e \<and> cl ! e < k" if e: "e < n" for e
  proof -
    have "map ID ps ! e = e" using assms(1) e by simp
    moreover have "map cluster ps ! e = cl ! e" using assms(2) e by simp
    ultimately show ?thesis using len e assms(3) by (simp add: clusters_ok_def)
  qed
  with len show ?thesis by (simp add: points_ok_def)
qed

lemma points_ok_cluster:
  assumes "points_ok n k cl ps" "length cl = n"
  shows "map cluster ps = cl"
  using assms by (auto simp: points_ok_def intro: nth_equalityI)

text \<open>
  The variance entry point when an allocation fails: it returns with the message and the
  caller's buffers untouched if the failing allocation is that of a list node or of the last
  row of values, and runs into undefined behaviour in its clean-up otherwise.
\<close>

lemma c_anticlustering_fail:
  assumes "\<not> all_ok ok (mallocs w) (arg_N a + arg_K a + arg_N a)"
  shows "(\<exists>w'. c_anticlustering ok a w = Inr (a, w') \<and> oom w w' \<and>
            (all_ok ok (mallocs w) (arg_N a + arg_K a) \<or> all_ok ok (mallocs w) (arg_N a - 1)))
       \<or> (c_anticlustering ok a w = Inl Uninitialized_pointer_freed \<and> \<not> all_ok ok (mallocs w) (arg_N a - 1))
       \<or> (c_anticlustering ok a w = Inl Null_pointer_dereferenced \<and> all_ok ok (mallocs w) (arg_N a)
            \<and> \<not> all_ok ok (mallocs w + arg_N a) (arg_K a))"
proof -
  let ?n = "arg_N a" and ?k = "arg_K a" and ?m = "arg_M a"
  show ?thesis
  proof (cases "all_ok ok (mallocs w) ?n")
    case False
    from fill_data_points_loop_fail[of ok w "[0..<?n]" "[]" ?n "arg_data a" ?m "arg_clusters a"] False
    have "(\<exists>w'. fill_data_points ok (arg_data a) ?n ?m (arg_clusters a) w = (Inl Uninitialized_pointer_freed, w') \<and>
               \<not> all_ok ok (mallocs w) (?n - 1)) \<or>
         (\<exists>w'. fill_data_points ok (arg_data a) ?n ?m (arg_clusters a) w = (Inr None, w') \<and> oom w w' \<and>
               all_ok ok (mallocs w) (?n - 1))"
      unfolding fill_data_points_def by simp
    then show ?thesis
    proof (elim disjE exE conjE)
      fix w' assume "fill_data_points ok (arg_data a) ?n ?m (arg_clusters a) w = (Inl Uninitialized_pointer_freed, w')"
        "\<not> all_ok ok (mallocs w) (?n - 1)"
      then show ?thesis by (simp add: c_anticlustering_def Let_def)
    next
      fix w' assume "fill_data_points ok (arg_data a) ?n ?m (arg_clusters a) w = (Inr None, w')"
        "oom w w'" "all_ok ok (mallocs w) (?n - 1)"
      then show ?thesis by (simp add: c_anticlustering_def Let_def)
    qed
  next
    case True
    from fill_data_points_loop_ok[of ok w "[0..<?n]" "arg_data a" ?n ?m "arg_clusters a" _ "[]"] True
    obtain ps where ps: "fill_data_points ok (arg_data a) ?n ?m (arg_clusters a) w
        = (Inr (Some ps), w\<lparr>mallocs := mallocs w + ?n\<rparr>)" and idp: "map ID ps = [0..<?n]"
      unfolding fill_data_points_def by force
    have lps: "length ps = ?n" using idp by (metis length_map length_upt minus_nat.diff_0)
    let ?w1 = "w\<lparr>mallocs := mallocs w + ?n\<rparr>"
    show ?thesis
    proof (cases "all_ok ok (mallocs ?w1) ?k")
      case False
      from initialize_cluster_heads_loop_fail[of ok ?w1 "[0..<?k]" "[]" ?k ?n ps] False lps
      obtain w' where "initialize_cluster_heads ok ?n ?k ps ?w1 = (Inl Null_pointer_dereferenced, w')"
        unfolding initialize_cluster_heads_def by force
      with ps True False show ?thesis by (simp add: c_anticlustering_def Let_def)
    next
      case T2: True
      from initialize_cluster_heads_loop_ok[of ok ?w1 "[0..<?k]" ?n ?k ps "[]"] T2
      have hs: "initialize_cluster_heads ok ?n ?k ps ?w1
          = (Inr (Some (replicate ?k [])), ?w1\<lparr>mallocs := mallocs ?w1 + ?k\<rparr>)"
        unfolding initialize_cluster_heads_def by simp
      let ?w2 = "?w1\<lparr>mallocs := mallocs ?w1 + ?k\<rparr>"
      have "\<not> all_ok ok (mallocs ?w2) ?n"
        using assms True T2 by (simp add: all_ok_add add.assoc)
      from fill_cluster_lists_loop_fail[of ok ?w2 "[0..<?n]"] this
      obtain w' where "fill_cluster_lists ok ?n ?k (arg_clusters a) ps (replicate ?k []) ?w2 = (None, w')" "oom ?w2 w'"
        unfolding fill_cluster_lists_def by force
      moreover have "all_ok ok (mallocs w) (?n + ?k)" using True T2 by (simp add: all_ok_add)
      ultimately show ?thesis using ps hs by (simp add: c_anticlustering_def Let_def oom_def)
    qed
  qed
qed

lemma c_anticlustering_ok:
  assumes ok: "all_ok ok (mallocs w) (arg_N a + arg_K a + arg_N a)"
    and cl: "clusters_ok (arg_N a) (arg_K a) (arg_clusters a)"
  shows "\<exists>cl'. c_anticlustering ok a w
            = Inr (a\<lparr>arg_clusters := cl'\<rparr>, w\<lparr>mallocs := mallocs w + (arg_N a + arg_K a + arg_N a)\<rparr>) \<and>
          mset cl' = mset (arg_clusters a)"
proof -
  let ?n = "arg_N a" and ?k = "arg_K a" and ?m = "arg_M a"
  from ok have o1: "all_ok ok (mallocs w) ?n" and o2: "all_ok ok (mallocs w + ?n) ?k"
    and o3: "all_ok ok (mallocs w + ?n + ?k) ?n"
    by (simp_all add: all_ok_add add.assoc)
  from fill_data_points_loop_ok[of ok w "[0..<?n]" "arg_data a" ?n ?m "arg_clusters a" _ "[]"] o1
  obtain ps where ps: "fill_data_points ok (arg_data a) ?n ?m (arg_clusters a) w
        = (Inr (Some ps), w\<lparr>mallocs := mallocs w + ?n\<rparr>)"
    "map ID ps = [0..<?n]" "map cluster ps = map (\<lambda>i. arg_clusters a ! i) [0..<?n]"
    unfolding fill_data_points_def by force
  have pok: "points_ok ?n ?k (arg_clusters a) ps" using points_okI[OF ps(2,3) cl] .
  let ?w1 = "w\<lparr>mallocs := mallocs w + ?n\<rparr>"
  from initialize_cluster_heads_loop_ok[of ok ?w1 "[0..<?k]" ?n ?k ps "[]"] o2
  have hs: "initialize_cluster_heads ok ?n ?k ps ?w1
      = (Inr (Some (replicate ?k [])), ?w1\<lparr>mallocs := mallocs ?w1 + ?k\<rparr>)"
    unfolding initialize_cluster_heads_def by simp
  let ?w2 = "?w1\<lparr>mallocs := mallocs ?w1 + ?k\<rparr>"
  from fill_cluster_lists_loop_ok[of ok ?w2 "[0..<?n]"] o3
  obtain s where s: "fill_cluster_lists ok ?n ?k (arg_clusters a) ps (replicate ?k []) ?w2
      = (Some s, ?w2\<lparr>mallocs := mallocs ?w2 + ?n\<rparr>)"
    unfolding fill_cluster_lists_def by force
  have cs: "consistent ?n s" using fill_cluster_lists_consistent(1)[OF s pok] .
  have Ps: "POINTS s = ps" using fill_cluster_lists_filled[OF s pok] by (simp add: filled_def)
  define centers where "centers = map (\<lambda>i. compute_center ?m (CHAINS s ! i) (arg_frequencies a ! i) s) [0..<?k]"
  define objective where "objective = objective_by_cluster ?m ?k centers s"
  define st where "st = \<lparr>lists = s, best_partner = None, CENTERS = centers,
                  OBJECTIVE_BY_CLUSTER = objective,
                  SUM_VAR_OBJECTIVE = array_sum ?k objective,
                  best_objective = 0, best_centers = [], best_objectives = []\<rparr>"
  have "0 \<le> SUM_VAR_OBJECTIVE st"
    by (auto simp: st_def objective_def objective_by_cluster_def cluster_variance_nonneg intro!: array_sum_nonneg)
  moreover have "consistent ?n (lists st)" using cs by (simp add: st_def)
  ultimately obtain st' where st': "var_rounds ?n ?k ?m (arg_frequencies a) [0..<?n] st = Inr st'"
    "consistent ?n (lists st')"
    "mset (map cluster (POINTS (lists st'))) = mset (map cluster (POINTS (lists st)))"
    using var_rounds_ok[of ?n st "[0..<?n]" ?k ?m "arg_frequencies a"] by auto
  have len: "length (arg_clusters a) = ?n" using cl by (simp add: clusters_ok_def)
  have out: "write_output ?n (lists st') (arg_clusters a) = map cluster (POINTS (lists st'))"
    using write_output_consistent[OF len st'(2)] .
  have "c_anticlustering ok a w = Inr (a\<lparr>arg_clusters := map cluster (POINTS (lists st'))\<rparr>,
        w\<lparr>mallocs := mallocs w + (?n + ?k + ?n)\<rparr>)"
    using ps(1) hs s st'(1) out
    by (simp add: c_anticlustering_def Let_def st_def objective_def centers_def add.assoc)
  moreover have "mset (map cluster (POINTS (lists st'))) = mset (arg_clusters a)"
    using st'(3) Ps points_ok_cluster[OF pok len] by (simp add: st_def)
  ultimately show ?thesis by blast
qed

section \<open>The diversity entry point\<close>

lemma dist_improved_refl: "dist_improved J st st"
  by (simp add: dist_improved_def)

lemma dist_improvedI:
  "j \<in> J \<Longrightarrow> best_obj st < bo \<Longrightarrow>
   dist_improved J st (st\<lparr>best_obj := bo, best_objs := bos, best_partner := Some j\<rparr>)"
  unfolding dist_improved_def by blast

lemma dist_improved_trans:
  assumes a: "dist_improved J st st'" and b: "dist_improved J' st' st''"
  shows "dist_improved (J \<union> J') st st''"
proof -
  from a consider "st' = st" |
    bo bos j where "j \<in> J" "best_obj st < bo"
      "st' = st\<lparr>best_obj := bo, best_objs := bos, best_partner := Some j\<rparr>"
    unfolding dist_improved_def by blast
  then show ?thesis
  proof cases
    case 1
    from b consider "st'' = st'" |
      bo bos j where "j \<in> J'" "best_obj st' < bo"
        "st'' = st'\<lparr>best_obj := bo, best_objs := bos, best_partner := Some j\<rparr>"
      unfolding dist_improved_def by blast
    then show ?thesis
    proof cases
      case 1
      with \<open>st' = st\<close> show ?thesis by (simp add: dist_improved_refl)
    next
      case 2
      have "dist_improved (J \<union> J') st (st\<lparr>best_obj := bo, best_objs := bos, best_partner := Some j\<rparr>)"
        using 2(1,2) \<open>st' = st\<close> by (intro dist_improvedI) simp_all
      with 2(3) \<open>st' = st\<close> show ?thesis by simp
    qed
  next
    case 2
    note A = 2
    from b consider "st'' = st'" |
      bo' bos' j' where "j' \<in> J'" "best_obj st' < bo'"
        "st'' = st'\<lparr>best_obj := bo', best_objs := bos', best_partner := Some j'\<rparr>"
      unfolding dist_improved_def by blast
    then show ?thesis
    proof cases
      case 1
      have "dist_improved (J \<union> J') st (st\<lparr>best_obj := bo, best_objs := bos, best_partner := Some j\<rparr>)"
        using A(1,2) by (intro dist_improvedI) simp_all
      with 1 A(3) show ?thesis by simp
    next
      case 2
      have lt: "best_obj st < bo'" using A(2,3) 2(2) by simp
      have eq: "st'' = st\<lparr>best_obj := bo', best_objs := bos', best_partner := Some j'\<rparr>"
        unfolding 2(3) A(3) by simp
      have "dist_improved (J \<union> J') st (st\<lparr>best_obj := bo', best_objs := bos', best_partner := Some j'\<rparr>)"
        using 2(1) lt by (intro dist_improvedI) simp_all
      with eq show ?thesis by simp
    qed
  qed
qed

lemma dist_tentative_lists:
  "fst (dist_tentative k D i j cl1 cl2 obj s) = swap i j s"
  by (simp add: dist_tentative_def Let_def)

lemma dist_partner_eq:
  assumes c: "consistent n (lists st)" and i: "i < n" and j: "j < n"
  shows "dist_partner k D i cl1 j st =
    (let cl2 = cluster (POINTS (lists st) ! (NODE_DATA (lists st) ! (PTR_NODES (lists st) ! j)));
         t = dist_tentative k D i j cl1 cl2 (OBJ_BY_CLUSTER st) (lists st)
     in if cl1 \<noteq> cl2 \<and> best_obj st < array_sum k (snd t)
        then st\<lparr>best_obj := array_sum k (snd t),
                best_objs := copy_array k (snd t),
                best_partner := Some j\<rparr>
        else st)"
proof -
  let ?cl2 = "cluster (POINTS (lists st) ! (NODE_DATA (lists st) ! (PTR_NODES (lists st) ! j)))"
  let ?t = "dist_tentative k D i j cl1 ?cl2 (OBJ_BY_CLUSTER st) (lists st)"
  have s': "fst ?t = swap i j (lists st)" by (rule dist_tentative_lists)
  show ?thesis
  proof (cases "cl1 = ?cl2")
    case True
    then show ?thesis by (simp add: dist_partner_def)
  next
    case False
    show ?thesis
    proof (cases "best_obj st < array_sum k (snd ?t)")
      case True
      with False show ?thesis
        using swap_swap[OF c i j] by (simp add: dist_partner_def Let_def s')
    next
      case F2: False
      with False show ?thesis
        using swap_swap[OF c i j] by (simp add: dist_partner_def Let_def s')
    qed
  qed
qed

lemma dist_partner_improved:
  assumes c: "consistent n (lists st)" and i: "i < n" and j: "j < n"
  shows "dist_improved {j} st (dist_partner k D i cl1 j st)"
proof -
  let ?cl2 = "cluster (POINTS (lists st) ! (NODE_DATA (lists st) ! (PTR_NODES (lists st) ! j)))"
  let ?t = "dist_tentative k D i j cl1 ?cl2 (OBJ_BY_CLUSTER st) (lists st)"
  show ?thesis
  proof (cases "cl1 \<noteq> ?cl2 \<and> best_obj st < array_sum k (snd ?t)")
    case True
    have "dist_partner k D i cl1 j st = st\<lparr>best_obj := array_sum k (snd ?t),
                best_objs := copy_array k (snd ?t), best_partner := Some j\<rparr>"
      unfolding dist_partner_eq[OF c i j] Let_def by (rule if_P[OF True])
    moreover have "dist_improved {j} st (st\<lparr>best_obj := array_sum k (snd ?t),
                best_objs := copy_array k (snd ?t), best_partner := Some j\<rparr>)"
      using True by (intro dist_improvedI) simp_all
    ultimately show ?thesis by simp
  next
    case False
    have "dist_partner k D i cl1 j st = st"
      unfolding dist_partner_eq[OF c i j] Let_def by (rule if_not_P[OF False])
    then show ?thesis by (simp add: dist_improved_refl)
  qed
qed

lemma dist_improved_lists: "dist_improved J st st' \<Longrightarrow> lists st' = lists st"
  by (auto simp: dist_improved_def)

lemma dist_fold_improved:
  assumes "consistent n (lists st)" "i < n" "\<forall>j\<in>set js. j < n"
  shows "dist_improved (set js) st (fold (dist_partner k D i cl1) js st)"
  using assms
proof (induction js arbitrary: st)
  case Nil
  then show ?case by (simp add: dist_improved_def)
next
  case (Cons j js)
  let ?st = "dist_partner k D i cl1 j st"
  have 1: "dist_improved {j} st ?st"
    using dist_partner_improved[OF Cons.prems(1,2)] Cons.prems(3) by simp
  then have "consistent n (lists ?st)" using Cons.prems(1) by (simp add: dist_improved_lists)
  from Cons.IH[OF this Cons.prems(2)] Cons.prems(3)
  have "dist_improved (set js) ?st (fold (dist_partner k D i cl1) js ?st)" by simp
  from dist_improved_trans[OF 1 this] show ?case by simp
qed

lemma dist_round_inv:
  assumes inv: "dist_inv n cats st" and i: "i < n" and p: "partners_ok n cats CF CH"
  shows "(\<forall>st'. dist_round k D CF CH i st = Inr st' \<longrightarrow>
            dist_inv n cats st' \<and>
            mset (map (\<lambda>e. (category e, cluster e)) (POINTS (lists st'))) =
            mset (map (\<lambda>e. (category e, cluster e)) (POINTS (lists st))))
       \<and> (0 \<le> SUM_OBJECTIVE st \<longrightarrow>
            (\<exists>st'. dist_round k D CF CH i st = Inr st' \<and> 0 \<le> SUM_OBJECTIVE st'))"
proof -
  let ?s = "lists st"
  from inv have c: "consistent n ?s" and cats: "map category (POINTS ?s) = cats"
    and stale: "best_partner st \<noteq> None \<longrightarrow> 0 \<le> SUM_OBJECTIVE st"
    by (simp_all add: dist_inv_def)
  have len: "length (POINTS ?s) = n" using c by (simp add: consistent_def)
  have cat_nth: "category (POINTS ?s ! e) = cats ! e" if "e < n" for e
    using cats len that by (metis nth_map)
  have own: "NODE_DATA ?s ! (PTR_NODES ?s ! i) = i" using c i by (simp add: consistent_def)
  define cl1 where "cl1 = cluster (POINTS ?s ! (NODE_DATA ?s ! (PTR_NODES ?s ! i)))"
  define st0 where "st0 = st\<lparr>best_obj := 0, best_objs := copy_array k (OBJ_BY_CLUSTER st)\<rparr>"
  define cat_i where "cat_i = category (POINTS ?s ! (NODE_DATA ?s ! (PTR_NODES ?s ! i)))"
  define js where "js = map (\<lambda>u. CH ! cat_i ! u) [0..<CF ! cat_i]"
  define st1 where "st1 = fold (dist_partner k D i cl1) js st0"
  have ci: "cat_i = cats ! i" using own cat_nth[OF i] by (simp add: cat_i_def)
  have js_ok: "\<forall>j\<in>set js. j < n \<and> cats ! j = cats ! i"
    using p i unfolding js_def ci partners_ok_def by auto
  have st1_alt: "st1 = dist_search k D CF CH i st"
    unfolding st1_def js_def
    by (simp add: fold_map comp_def dist_search_def Let_def st0_def cl1_def cat_i_def)
  have c0: "consistent n (lists st0)" using c by (simp add: st0_def)
  have imp: "dist_improved (set js) st0 st1"
    unfolding st1_def using js_ok by (intro dist_fold_improved[OF c0 i]) simp
  have R: "dist_round k D CF CH i st =
    (if best_obj st1 > SUM_OBJECTIVE st1
        then (case best_partner st1 of
                None \<Rightarrow> Inl Uninitialized_best_partner
              | Some b \<Rightarrow>
                  Inr (st1\<lparr>lists := swap i b (lists st1),
                          SUM_OBJECTIVE := best_obj st1,
                          OBJ_BY_CLUSTER := copy_array k (best_objs st1)\<rparr>))
        else Inr st1)"
    unfolding dist_round_def Let_def st1_alt by (rule refl)
  from imp consider "st1 = st0" |
    bo bos j where "j \<in> set js" "best_obj st0 < bo"
      "st1 = st0\<lparr>best_obj := bo, best_objs := bos, best_partner := Some j\<rparr>"
    unfolding dist_improved_def by blast
  then show ?thesis
  proof cases
    case 1
    have l1: "lists st1 = ?s" "SUM_OBJECTIVE st1 = SUM_OBJECTIVE st"
      "best_partner st1 = best_partner st" "best_obj st1 = 0"
      by (simp_all add: 1 st0_def)
    show ?thesis
    proof (cases "0 > SUM_OBJECTIVE st")
      case True
      with stale have "best_partner st = None" by auto
      then have "dist_round k D CF CH i st = Inl Uninitialized_best_partner"
        using True by (simp add: R l1)
      with True show ?thesis by simp
    next
      case False
      then have "dist_round k D CF CH i st = Inr st1" by (simp add: R l1)
      then have "dist_round k D CF CH i st = Inr st0" by (simp add: 1)
      then show ?thesis using inv False by (simp add: st0_def dist_inv_def)
    qed
  next
    case 2
    have j: "j < n" and cj: "cats ! j = cats ! i" using 2(1) js_ok by auto
    have l1: "lists st1 = ?s" "SUM_OBJECTIVE st1 = SUM_OBJECTIVE st"
      "best_partner st1 = Some j" "best_obj st1 = bo"
      by (simp_all add: 2(3) st0_def)
    have bo: "0 < bo" using 2(2) by (simp add: st0_def)
    show ?thesis
    proof (cases "best_obj st1 > SUM_OBJECTIVE st1")
      case True
      let ?st' = "st1\<lparr>lists := swap i j (lists st1), SUM_OBJECTIVE := best_obj st1,
                          OBJ_BY_CLUSTER := copy_array k (best_objs st1)\<rparr>"
      have r: "dist_round k D CF CH i st = Inr ?st'"
        using True by (simp add: R l1)
      have "category (POINTS ?s ! i) = category (POINTS ?s ! j)"
        using cat_nth[OF i] cat_nth[OF j] cj by simp
      from swap_mset_category_cluster[OF c i j this] swap_consistent[OF c i j] swap_category[OF c i j]
      have "dist_inv n cats ?st'"
        and "mset (map (\<lambda>e. (category e, cluster e)) (POINTS (lists ?st'))) =
            mset (map (\<lambda>e. (category e, cluster e)) (POINTS ?s))"
        using bo cats by (simp_all add: dist_inv_def l1)
      with r bo show ?thesis by (simp add: l1)
    next
      case False
      then have r: "dist_round k D CF CH i st = Inr st1" by (simp add: R)
      have "0 \<le> SUM_OBJECTIVE st" using False bo l1 by simp
      then have "dist_inv n cats st1" using c cats by (simp add: dist_inv_def l1)
      with r \<open>0 \<le> SUM_OBJECTIVE st\<close> show ?thesis by (simp add: l1)
    qed
  qed
qed

lemma dist_rounds_inv:
  assumes "dist_inv n cats st" "\<forall>i\<in>set is. i < n" "partners_ok n cats CF CH"
  shows "(\<forall>st'. dist_rounds k D CF CH is st = Inr st' \<longrightarrow>
            dist_inv n cats st' \<and>
            mset (map (\<lambda>e. (category e, cluster e)) (POINTS (lists st'))) =
            mset (map (\<lambda>e. (category e, cluster e)) (POINTS (lists st))))
       \<and> (0 \<le> SUM_OBJECTIVE st \<longrightarrow> (\<exists>st'. dist_rounds k D CF CH is st = Inr st'))"
  using assms
proof (induction "is" arbitrary: st)
  case Nil
  then show ?case by simp
next
  case (Cons i "is")
  have i: "i < n" using Cons.prems(2) by simp
  note R = dist_round_inv[OF Cons.prems(1) i Cons.prems(3), of k D]
  show ?case
  proof (cases "dist_round k D CF CH i st")
    case (Inl e)
    with R show ?thesis by auto
  next
    case (Inr st1)
    with R have 1: "dist_inv n cats st1"
      "mset (map (\<lambda>e. (category e, cluster e)) (POINTS (lists st1))) =
            mset (map (\<lambda>e. (category e, cluster e)) (POINTS (lists st)))"
      "0 \<le> SUM_OBJECTIVE st \<longrightarrow> 0 \<le> SUM_OBJECTIVE st1"
      by auto
    from Cons.IH[OF 1(1) _ Cons.prems(3)] Cons.prems(2)
    have IH: "(\<forall>st'. dist_rounds k D CF CH is st1 = Inr st' \<longrightarrow>
            dist_inv n cats st' \<and>
            mset (map (\<lambda>e. (category e, cluster e)) (POINTS (lists st'))) =
            mset (map (\<lambda>e. (category e, cluster e)) (POINTS (lists st1))))
       \<and> (0 \<le> SUM_OBJECTIVE st1 \<longrightarrow> (\<exists>st'. dist_rounds k D CF CH is st1 = Inr st'))"
      by simp
    show ?thesis using IH 1(2,3) Inr by simp
  qed
qed

lemma dist_points_loop_eq:
  "\<exists>ps. dist_points_loop ok uc cl cats is pts w = (pts @ ps, w\<lparr>mallocs := mallocs w + length is\<rparr>) \<and>
     map ID ps = is \<and> map cluster ps = map (\<lambda>i. cl ! i) is \<and>
     map category ps = map (\<lambda>i. if uc \<noteq> 0 then cats ! i else 0) is"
proof (induction "is" arbitrary: pts w)
  case Nil
  then show ?case by simp
next
  case (Cons i "is")
  let ?p = "\<lparr>ID = i, cluster = cl ! i, category = (if uc \<noteq> 0 then cats ! i else 0),
                      vals = (if ok (mallocs w) then [0] else [])\<rparr>"
  from Cons.IH[of "pts @ [?p]" "w\<lparr>mallocs := Suc (mallocs w)\<rparr>"]
  obtain ps where ps: "dist_points_loop ok uc cl cats is (pts @ [?p]) (w\<lparr>mallocs := Suc (mallocs w)\<rparr>)
     = ((pts @ [?p]) @ ps, w\<lparr>mallocs := Suc (mallocs w) + length is\<rparr>)"
     "map ID ps = is" "map cluster ps = map (\<lambda>i. cl ! i) is"
     "map category ps = map (\<lambda>i. if uc \<noteq> 0 then cats ! i else 0) is"
    by auto
  have "dist_points_loop ok uc cl cats (i # is) pts w
      = (pts @ (?p # ps), w\<lparr>mallocs := mallocs w + length (i # is)\<rparr>)"
    using ps(1) by (simp add: malloc_def)
  with ps(2,3,4) show ?case by (intro exI[of _ "?p # ps"]) simp
qed

lemma write_cheads_loop_ok:
  assumes "all_ok ok (mallocs w) (length cs)"
  shows "write_cheads_loop ok n pts cs hs w
            = (Some (hs @ map (\<lambda>c. filter (\<lambda>i. category (pts ! i) = c) [0..<n]) cs),
               w\<lparr>mallocs := mallocs w + length cs\<rparr>)"
  using assms
proof (induction cs arbitrary: hs w)
  case Nil
  then show ?case by simp
next
  case (Cons c cs)
  from Cons.prems have ok: "ok (mallocs w)" and rest: "all_ok ok (mallocs (w\<lparr>mallocs := Suc (mallocs w)\<rparr>)) (length cs)"
    by (simp_all add: all_ok_Suc)
  from Cons.IH[OF rest] ok show ?case
    by (simp add: malloc_def)
qed

lemma write_cheads_loop_fail:
  assumes "\<not> all_ok ok (mallocs w) (length cs)"
  shows "\<exists>w'. write_cheads_loop ok n pts cs hs w = (None, w') \<and> stderr w' = stderr w"
  using assms
proof (induction cs arbitrary: hs w)
  case Nil
  then show ?case by (simp add: all_ok_0)
next
  case (Cons c cs)
  show ?case
  proof (cases "ok (mallocs w)")
    case False
    then show ?thesis by (simp add: malloc_def)
  next
    case True
    with Cons.prems have rest: "\<not> all_ok ok (mallocs (w\<lparr>mallocs := Suc (mallocs w)\<rparr>)) (length cs)"
      by (simp add: all_ok_Suc)
    from Cons.IH[OF rest] True show ?thesis by (simp add: malloc_def)
  qed
qed

lemma alloc_distances_loop_ok:
  assumes "all_ok ok (mallocs w) (length is)"
  shows "alloc_distances_loop ok is w = (True, w\<lparr>mallocs := mallocs w + length is\<rparr>)"
  using assms
proof (induction "is" arbitrary: w)
  case Nil
  then show ?case by simp
next
  case (Cons i "is")
  from Cons.prems have ok: "ok (mallocs w)" and rest: "all_ok ok (mallocs (w\<lparr>mallocs := Suc (mallocs w)\<rparr>)) (length is)"
    by (simp_all add: all_ok_Suc)
  from Cons.IH[OF rest] ok show ?case
    by (simp add: malloc_def)
qed

lemma alloc_distances_loop_fail:
  assumes "\<not> all_ok ok (mallocs w) (length is)"
  shows "\<exists>w'. alloc_distances_loop ok is w = (False, w') \<and> oom w w'"
  using assms
proof (induction "is" arbitrary: w)
  case Nil
  then show ?case by (simp add: all_ok_0)
next
  case (Cons i "is")
  show ?case
  proof (cases "ok (mallocs w)")
    case False
    then show ?thesis by (simp add: malloc_def oom_def print_memory_error_def)
  next
    case True
    with Cons.prems have rest: "\<not> all_ok ok (mallocs (w\<lparr>mallocs := Suc (mallocs w)\<rparr>)) (length is)"
      by (simp add: all_ok_Suc)
    from Cons.IH[OF rest] True show ?thesis by (simp add: malloc_def oom_def)
  qed
qed

lemma read_row_prefix:
  "p \<le> length offs \<Longrightarrow>
   fold (\<lambda>j (row, offsets). (row @ [dat ! (offsets ! j)], offsets[j := offsets ! j + 1]))
       [0..<p] ([], offs)
   = (map (\<lambda>j. dat ! (offs ! j)) [0..<p], map Suc (take p offs) @ drop p offs)"
proof (induction p)
  case 0
  then show ?case by simp
next
  case (Suc p)
  then have p: "p < length offs" by simp
  have "(map Suc (take p offs) @ drop p offs) ! p = offs ! p"
    using p by (simp add: nth_append)
  moreover have "(map Suc (take p offs) @ drop p offs)[p := Suc (offs ! p)]
      = map Suc (take (Suc p) offs) @ drop (Suc p) offs"
    using p by (simp add: list_update_append take_Suc_conv_app_nth Cons_nth_drop_Suc[symmetric])
  ultimately show ?case using Suc by simp
qed

lemma read_row_eq:
  "length offs = m \<Longrightarrow> read_row dat m offs = (map (\<lambda>j. dat ! (offs ! j)) [0..<m], map Suc offs)"
  unfolding read_row_def using read_row_prefix[of m offs dat] by simp

lemma restore_distances_loop_eq:
  "length offs = n \<Longrightarrow>
   restore_distances_loop dat n is offs D
     = D @ map (\<lambda>x. map (\<lambda>j. dat ! (offs ! j + x)) [0..<n]) [0..<length is]"
proof (induction "is" arbitrary: offs D)
  case Nil
  then show ?case by simp
next
  case (Cons i "is")
  have "[0..<Suc (length is)] = 0 # map Suc [0..<length is]"
    by (simp add: upt_conv_Cons map_Suc_upt del: upt_Suc)
  then have "map (\<lambda>x. map (\<lambda>j. dat ! (offs ! j + x)) [0..<n]) [0..<Suc (length is)]
      = map (\<lambda>j. dat ! (offs ! j)) [0..<n] #
        map (\<lambda>x. map (\<lambda>j. dat ! (map Suc offs ! j + x)) [0..<n]) [0..<length is]"
    using Cons.prems by (simp add: comp_def del: upt_Suc)
  with Cons.IH[of "map Suc offs"] Cons.prems show ?case
    by (simp add: read_row_eq del: upt_Suc)
qed

lemma restore_distances_nth:
  assumes "i < n" "j < n"
  shows "restore_distances dat n ! i ! j = dat ! (j * n + i)"
  using assms by (simp add: restore_distances_def restore_distances_loop_eq)

lemma node_ID:
  assumes "consistent n s" "a < n"
  shows "ID (POINTS s ! (NODE_DATA s ! a)) = NODE_DATA s ! a" "NODE_DATA s ! a < n"
  using assms by (simp_all add: consistent_def)

lemma distances_one_element_eq:
  "distances_one_element D chain i s
     = (\<Sum>tmp\<leftarrow>chain. D ! i ! ID (POINTS s ! (NODE_DATA s ! tmp)))"
  by (simp add: distances_one_element_def fold_add_sum_list)

lemma distances_one_element_nonneg:
  assumes "consistent n s" "\<forall>a\<in>set chain. a < n" "i < n" "\<forall>x<n. \<forall>y<n. 0 \<le> D ! x ! y"
  shows "0 \<le> distances_one_element D chain i s"
  unfolding distances_one_element_eq
  using assms node_ID[OF assms(1)] by (intro sum_list_nonneg) auto

lemma distances_within_loop_nonneg:
  assumes "consistent n s" "\<forall>a\<in>set chain. a < n" "\<forall>x<n. \<forall>y<n. 0 \<le> D ! x ! y" "0 \<le> acc"
  shows "0 \<le> distances_within_loop D chain s acc"
  using assms
proof (induction chain arbitrary: acc)
  case Nil
  then show ?case by simp
next
  case (Cons a chain)
  have "0 \<le> distances_one_element D chain (ID (POINTS s ! (NODE_DATA s ! a))) s"
    using Cons.prems node_ID[OF Cons.prems(1), of a]
    by (intro distances_one_element_nonneg[of n]) simp_all
  with Cons show ?case by simp
qed

lemma distance_objective_nonneg:
  assumes "consistent n s" "chains_ok n k s" "\<forall>x<n. \<forall>y<n. 0 \<le> D ! x ! y"
  shows "0 \<le> array_sum k (distance_objective k D s)"
proof (rule array_sum_nonneg, intro allI impI)
  fix c assume c: "c < k"
  have "\<forall>a\<in>set (CHAINS s ! c). a < n" using assms(2) c by (simp add: chains_ok_def)
  from distances_within_loop_nonneg[OF assms(1) this assms(3)] c
  show "0 \<le> distance_objective k D s ! c"
    by (simp add: distance_objective_def distances_within_def)
qed

lemma dist_after_simps:
  "arg_clusters (dist_after a) = arg_clusters a" "arg_data (dist_after a) = arg_data a"
  "arg_N (dist_after a) = arg_N a" "arg_K (dist_after a) = arg_K a"
  "arg_frequencies (dist_after a) = arg_frequencies a"
  "arg_categories (dist_after a) = arg_categories a"
  "arg_USE_CATS (dist_after a) = arg_USE_CATS a" "arg_C (dist_after a) = arg_C a"
  by (simp_all add: dist_after_def)

lemma distance_anticlustering_unfold:
  assumes ps: "dist_points_loop ok (arg_USE_CATS a) (arg_clusters a) (arg_categories a) [0..<arg_N a] [] w
      = (ps, w1)"
  shows "distance_anticlustering ok a w =
    (case write_cheads ok (arg_N a) (n_cats a) ps w1 of
       (None, w) \<Rightarrow> Inr (dist_after a, print_memory_error w)
     | (Some C_HEADS, w) \<Rightarrow>
     (case dist_initialize_cluster_heads ok (arg_K a) w of
       (None, w) \<Rightarrow> Inr (dist_after a, w)
     | (Some HEADS, w) \<Rightarrow>
     (case fill_cluster_lists ok (arg_N a) (arg_K a) (arg_clusters (dist_after a)) ps HEADS w of
       (None, w) \<Rightarrow> Inr (dist_after a, w)
     | (Some s, w) \<Rightarrow>
     (case alloc_distances_loop ok [0..<arg_N a] w of
       (False, w) \<Rightarrow> Inr (dist_after a, w)
     | (True, w) \<Rightarrow>
       (let distances = restore_distances (arg_data (dist_after a)) (arg_N a);
            objective = distance_objective (arg_K a) distances s;
            st = \<lparr>lists = s, best_partner = None, OBJ_BY_CLUSTER = objective,
                  SUM_OBJECTIVE = array_sum (arg_K a) objective, best_obj = 0, best_objs = []\<rparr>
        in case dist_rounds (arg_K a) distances (arg_CAT_frequencies (dist_after a)) C_HEADS [0..<arg_N a] st of
             Inl e \<Rightarrow> Inl e
           | Inr st \<Rightarrow> Inr ((dist_after a)\<lparr>arg_clusters := write_output (arg_N a) (lists st) (arg_clusters (dist_after a))\<rparr>, w))))))"
  unfolding distance_anticlustering_def Let_def ps n_cats_def dist_after_def by simp

lemma distance_anticlustering_fail:
  assumes "\<not> all_ok ok (mallocs w + arg_N a) (checked_allocs a)"
  shows "\<exists>w'. distance_anticlustering ok a w = Inr (dist_after a, w') \<and> oom w w'"
proof -
  let ?n = "arg_N a" and ?k = "arg_K a" and ?c = "n_cats a"
  from dist_points_loop_eq[of ok "arg_USE_CATS a" "arg_clusters a" "arg_categories a" "[0..<?n]" "[]" w]
  obtain ps where ps: "dist_points_loop ok (arg_USE_CATS a) (arg_clusters a) (arg_categories a) [0..<?n] [] w
      = (ps, w\<lparr>mallocs := mallocs w + ?n\<rparr>)"
    by auto
  let ?w1 = "w\<lparr>mallocs := mallocs w + ?n\<rparr>"
  note D = distance_anticlustering_unfold[OF ps]
  show ?thesis
  proof (cases "all_ok ok (mallocs ?w1) ?c")
    case False
    from write_cheads_loop_fail[of ok ?w1 "[0..<?c]" ?n ps "[]"] False
    obtain w' where "write_cheads ok ?n ?c ps ?w1 = (None, w')" "stderr w' = stderr ?w1"
      unfolding write_cheads_def by force
    then show ?thesis by (simp add: D oom_def print_memory_error_def)
  next
    case True
    from write_cheads_loop_ok[of ok ?w1 "[0..<?c]" ?n ps "[]"] True
    obtain CH where CH: "write_cheads ok ?n ?c ps ?w1 = (Some CH, ?w1\<lparr>mallocs := mallocs ?w1 + ?c\<rparr>)"
      unfolding write_cheads_def by force
    let ?w2 = "?w1\<lparr>mallocs := mallocs ?w1 + ?c\<rparr>"
    show ?thesis
    proof (cases "all_ok ok (mallocs ?w2) ?k")
      case False
      from dist_initialize_cluster_heads_loop_fail[of ok ?w2 "[0..<?k]" "[]"] False
      obtain w' where "dist_initialize_cluster_heads ok ?k ?w2 = (None, w')" "oom ?w2 w'"
        unfolding dist_initialize_cluster_heads_def by force
      with CH show ?thesis by (simp add: D oom_def)
    next
      case T2: True
      from dist_initialize_cluster_heads_loop_ok[of ok ?w2 "[0..<?k]" "[]"] T2
      have hs: "dist_initialize_cluster_heads ok ?k ?w2 = (Some (replicate ?k []), ?w2\<lparr>mallocs := mallocs ?w2 + ?k\<rparr>)"
        unfolding dist_initialize_cluster_heads_def by simp
      let ?w3 = "?w2\<lparr>mallocs := mallocs ?w2 + ?k\<rparr>"
      show ?thesis
      proof (cases "all_ok ok (mallocs ?w3) ?n")
        case False
        from fill_cluster_lists_loop_fail[of ok ?w3 "[0..<?n]"] False
        obtain w' where "fill_cluster_lists ok ?n ?k (arg_clusters a) ps (replicate ?k []) ?w3 = (None, w')" "oom ?w3 w'"
          unfolding fill_cluster_lists_def by force
        with CH hs show ?thesis by (simp add: D oom_def dist_after_simps)
      next
        case T3: True
        from fill_cluster_lists_loop_ok[of ok ?w3 "[0..<?n]"] T3
        obtain s where s: "fill_cluster_lists ok ?n ?k (arg_clusters a) ps (replicate ?k []) ?w3
            = (Some s, ?w3\<lparr>mallocs := mallocs ?w3 + ?n\<rparr>)"
          unfolding fill_cluster_lists_def by force
        let ?w4 = "?w3\<lparr>mallocs := mallocs ?w3 + ?n\<rparr>"
        have "\<not> all_ok ok (mallocs ?w4) ?n"
          using assms True T2 T3 by (simp add: checked_allocs_def all_ok_add add.assoc)
        from alloc_distances_loop_fail[of ok ?w4 "[0..<?n]"] this
        obtain w' where "alloc_distances_loop ok [0..<?n] ?w4 = (False, w')" "oom ?w4 w'"
          by force
        with CH hs s show ?thesis by (simp add: D oom_def dist_after_simps)
      qed
    qed
  qed
qed

lemma zip_category_cluster:
  "map (\<lambda>e. (category e, cluster e)) ps = zip (map category ps) (map cluster ps)"
  by (induction ps) simp_all

lemma distance_anticlustering_ok:
  assumes ok: "all_ok ok (mallocs w + arg_N a) (checked_allocs a)" and pre: "dist_pre a"
  shows "(\<forall>out w'. distance_anticlustering ok a w = Inr (out, w') \<longrightarrow>
            (\<exists>cl'. out = (dist_after a)\<lparr>arg_clusters := cl'\<rparr> \<and> length cl' = arg_N a \<and>
                mset (zip (cats_of a) cl') = mset (zip (cats_of a) (arg_clusters a))) \<and>
            stderr w' = stderr w)
       \<and> ((\<forall>x<arg_N a. \<forall>y<arg_N a. 0 \<le> arg_data a ! (y * arg_N a + x)) \<longrightarrow>
            (\<exists>out w'. distance_anticlustering ok a w = Inr (out, w')))"
proof -
  let ?n = "arg_N a" and ?k = "arg_K a" and ?c = "n_cats a"
  let ?D = "restore_distances (arg_data a) ?n"
  let ?CF = "arg_CAT_frequencies (dist_after a)"
  from pre have cl: "clusters_ok ?n ?k (arg_clusters a)" by (simp add: dist_pre_def)
  then have len: "length (arg_clusters a) = ?n" by (simp add: clusters_ok_def)
  from dist_points_loop_eq[of ok "arg_USE_CATS a" "arg_clusters a" "arg_categories a" "[0..<?n]" "[]" w]
  obtain ps where ps: "dist_points_loop ok (arg_USE_CATS a) (arg_clusters a) (arg_categories a) [0..<?n] [] w
      = (ps, w\<lparr>mallocs := mallocs w + ?n\<rparr>)"
    "map ID ps = [0..<?n]" "map cluster ps = map (\<lambda>i. arg_clusters a ! i) [0..<?n]"
    "map category ps = cats_of a"
    unfolding cats_of_def by auto
  have pok: "points_ok ?n ?k (arg_clusters a) ps" using points_okI[OF ps(2,3) cl] .
  have lps: "length ps = ?n" using pok by (simp add: points_ok_def)
  have cat_nth: "category (ps ! e) = cats_of a ! e" if "e < ?n" for e
    using ps(4) lps that by (metis nth_map)
  let ?w1 = "w\<lparr>mallocs := mallocs w + ?n\<rparr>"
  from ok have o1: "all_ok ok (mallocs ?w1) ?c" and o2: "all_ok ok (mallocs ?w1 + ?c) ?k"
    and o3: "all_ok ok (mallocs ?w1 + ?c + ?k) ?n" and o4: "all_ok ok (mallocs ?w1 + ?c + ?k + ?n) ?n"
    by (simp_all add: checked_allocs_def all_ok_add add.assoc)
  define CH where "CH = map (\<lambda>c. filter (\<lambda>i. category (ps ! i) = c) [0..<?n]) [0..<?c]"
  let ?w2 = "?w1\<lparr>mallocs := mallocs ?w1 + ?c\<rparr>"
  have CH: "write_cheads ok ?n ?c ps ?w1 = (Some CH, ?w2)"
    using write_cheads_loop_ok[of ok ?w1 "[0..<?c]" ?n ps "[]"] o1
    unfolding write_cheads_def CH_def by simp
  let ?w3 = "?w2\<lparr>mallocs := mallocs ?w2 + ?k\<rparr>"
  have hs: "dist_initialize_cluster_heads ok ?k ?w2 = (Some (replicate ?k []), ?w3)"
    using dist_initialize_cluster_heads_loop_ok[of ok ?w2 "[0..<?k]" "[]"] o2
    unfolding dist_initialize_cluster_heads_def by simp
  let ?w4 = "?w3\<lparr>mallocs := mallocs ?w3 + ?n\<rparr>"
  from fill_cluster_lists_loop_ok[of ok ?w3 "[0..<?n]"] o3
  obtain s where s: "fill_cluster_lists ok ?n ?k (arg_clusters a) ps (replicate ?k []) ?w3 = (Some s, ?w4)"
    unfolding fill_cluster_lists_def by force
  let ?w5 = "?w4\<lparr>mallocs := mallocs ?w4 + ?n\<rparr>"
  have al: "alloc_distances_loop ok [0..<?n] ?w4 = (True, ?w5)"
    using alloc_distances_loop_ok[of ok ?w4 "[0..<?n]"] o4 by simp
  have cs: "consistent ?n s" and chs: "chains_ok ?n ?k s"
    using fill_cluster_lists_consistent[OF s pok] by simp_all
  have Ps: "POINTS s = ps" using fill_cluster_lists_filled[OF s pok] by (simp add: filled_def)
  define st where "st = \<lparr>lists = s, best_partner = None,
                 OBJ_BY_CLUSTER = distance_objective ?k ?D s,
                 SUM_OBJECTIVE = array_sum ?k (distance_objective ?k ?D s),
                 best_obj = 0, best_objs = []\<rparr>"
  have R: "distance_anticlustering ok a w =
      (case dist_rounds ?k ?D ?CF CH [0..<?n] st of
             Inl e \<Rightarrow> Inl e
           | Inr st \<Rightarrow> Inr ((dist_after a)\<lparr>arg_clusters := write_output ?n (lists st) (arg_clusters a)\<rparr>, ?w5))"
    unfolding distance_anticlustering_unfold[OF ps(1)] dist_after_simps CH prod.case option.case
      hs s al bool.case Let_def st_def
    by (rule refl)
  have inv: "dist_inv ?n (cats_of a) st"
    using cs Ps ps(4) by (simp add: dist_inv_def st_def)
  have part: "partners_ok ?n (cats_of a) ?CF CH"
    unfolding partners_ok_def
  proof (intro allI impI)
    fix i u assume i: "i < ?n" and u: "u < ?CF ! (cats_of a ! i)"
    let ?ci = "cats_of a ! i"
    have ci: "?ci < ?c"
      using pre i by (auto simp: cats_of_def n_cats_def dist_pre_def split: if_splits)
    have chi: "CH ! ?ci = filter (\<lambda>x. category (ps ! x) = ?ci) [0..<?n]"
      using ci by (simp add: CH_def)
    have "filter (\<lambda>x. category (ps ! x) = ?ci) [0..<?n] = filter (\<lambda>x. cats_of a ! x = ?ci) [0..<?n]"
      by (intro filter_cong) (simp_all add: cat_nth)
    with chi have chi': "CH ! ?ci = filter (\<lambda>x. cats_of a ! x = ?ci) [0..<?n]" by simp
    have cf: "?CF ! ?ci = length (CH ! ?ci)"
    proof (cases "arg_USE_CATS a \<noteq> 0")
      case True
      then have "?CF ! ?ci = length (filter (\<lambda>x. arg_categories a ! x = ?ci) [0..<?n])"
        using pre ci by (simp add: dist_after_def dist_pre_def n_cats_def)
      also have "filter (\<lambda>x. arg_categories a ! x = ?ci) [0..<?n] = filter (\<lambda>x. cats_of a ! x = ?ci) [0..<?n]"
        using True by (intro filter_cong) (simp_all add: cats_of_def)
      finally show ?thesis using chi' by simp
    next
      case False
      then have z: "?ci = 0" using i by (simp add: cats_of_def)
      have "filter (\<lambda>x. cats_of a ! x = 0) [0..<?n] = [0..<?n]"
        using False by (intro filter_True) (simp add: cats_of_def)
      then have "length (CH ! ?ci) = ?n" using chi' z by simp
      moreover have "?CF ! ?ci = ?n" using False pre z by (simp add: dist_after_def dist_pre_def)
      ultimately show ?thesis by simp
    qed
    from u cf have "CH ! ?ci ! u \<in> set (CH ! ?ci)" by simp
    then show "CH ! ?ci ! u < ?n \<and> cats_of a ! (CH ! ?ci ! u) = ?ci"
      unfolding chi' by simp
  qed
  note RI = dist_rounds_inv[OF inv _ part, of "[0..<?n]" ?k ?D]
  have A: "(\<exists>cl'. out = (dist_after a)\<lparr>arg_clusters := cl'\<rparr> \<and> length cl' = arg_N a \<and>
                mset (zip (cats_of a) cl') = mset (zip (cats_of a) (arg_clusters a))) \<and>
            stderr w' = stderr w"
    if r: "distance_anticlustering ok a w = Inr (out, w')" for out w'
  proof -
    from r R obtain st' where st': "dist_rounds ?k ?D ?CF CH [0..<?n] st = Inr st'"
      "out = (dist_after a)\<lparr>arg_clusters := write_output ?n (lists st') (arg_clusters a)\<rparr>" "w' = ?w5"
      by (auto split: sum.splits)
    from RI st'(1) have i': "dist_inv ?n (cats_of a) st'"
      and m: "mset (map (\<lambda>e. (category e, cluster e)) (POINTS (lists st'))) =
            mset (map (\<lambda>e. (category e, cluster e)) (POINTS (lists st)))"
      by simp_all
    from i' have c': "consistent ?n (lists st')" and cat': "map category (POINTS (lists st')) = cats_of a"
      by (simp_all add: dist_inv_def)
    have out: "write_output ?n (lists st') (arg_clusters a) = map cluster (POINTS (lists st'))"
      using write_output_consistent[OF len c'] .
    have "mset (zip (cats_of a) (map cluster (POINTS (lists st')))) = mset (zip (cats_of a) (arg_clusters a))"
      using m cat' ps(4) Ps points_ok_cluster[OF pok len]
      by (simp add: zip_category_cluster st_def)
    moreover have "length (map cluster (POINTS (lists st'))) = ?n"
      using c' by (simp add: consistent_def)
    ultimately show ?thesis using st'(2,3) out by auto
  qed
  have B: "\<exists>out w'. distance_anticlustering ok a w = Inr (out, w')"
    if nn: "\<forall>x<?n. \<forall>y<?n. 0 \<le> arg_data a ! (y * ?n + x)"
  proof -
    have "\<forall>x<?n. \<forall>y<?n. 0 \<le> ?D ! x ! y" using nn by (simp add: restore_distances_nth)
    from distance_objective_nonneg[OF cs chs this] have "0 \<le> SUM_OBJECTIVE st" by (simp add: st_def)
    with RI obtain st' where "dist_rounds ?k ?D ?CF CH [0..<?n] st = Inr st'" by auto
    then show ?thesis by (simp add: R)
  qed
  from A B show ?thesis by blast
qed

section \<open>Counting members, and the results of whole calls\<close>

lemma length_filter_index:
  "length (filter (\<lambda>i. P (xs ! i)) [0..<length xs]) = length (filter P xs)"
proof -
  have "filter P xs = filter P (map (\<lambda>i. xs ! i) [0..<length xs])" by (simp add: map_nth)
  also have "\<dots> = map (\<lambda>i. xs ! i) (filter (\<lambda>i. P (xs ! i)) [0..<length xs])"
    by (simp add: filter_map comp_def)
  finally show ?thesis by simp
qed

lemma length_filter_count: "length (filter (\<lambda>x. x = c) xs) = count (mset xs) c"
  by (induction xs) simp_all

lemma cluster_size_count: "cluster_size cl c = count (mset cl) c"
proof -
  have "cluster_size cl c = length (filter (\<lambda>x. x = c) cl)"
    unfolding cluster_size_def by (rule length_filter_index)
  then show ?thesis by (simp add: length_filter_count)
qed

lemma mset_cluster_size: "mset cl' = mset cl \<Longrightarrow> cluster_size cl' c = cluster_size cl c"
  by (simp add: cluster_size_count)

lemma category_count_zip:
  assumes "length cats = length cl"
  shows "category_count cats cl c k = count (mset (zip cats cl)) (c, k)"
proof -
  have "category_count cats cl c k =
        length (filter (\<lambda>i. zip cats cl ! i = (c, k)) [0..<length (zip cats cl)])"
    unfolding category_count_def using assms
    by (intro arg_cong[where f=length] filter_cong) auto
  also have "\<dots> = length (filter (\<lambda>p. p = (c, k)) (zip cats cl))"
    by (rule length_filter_index)
  also have "\<dots> = count (mset (zip cats cl)) (c, k)"
    by (rule length_filter_count)
  finally show ?thesis .
qed

lemma mset_zip_snd:
  assumes "mset (zip xs ys') = mset (zip xs ys)" "length ys = length xs" "length ys' = length xs"
  shows "mset ys' = mset ys"
proof -
  have "mset (map snd (zip xs ys')) = mset (map snd (zip xs ys))"
    using assms(1) by (metis mset_map)
  then show ?thesis using assms(2,3) by simp
qed

lemma distance_anticlustering_ok_result:
  assumes ok: "all_ok ok (mallocs w + arg_N a) (checked_allocs a)" and pre: "dist_pre a"
    and r: "distance_anticlustering ok a w = Inr (out, w')"
  shows "\<exists>cl'. out = (dist_after a)\<lparr>arg_clusters := cl'\<rparr> \<and> length cl' = arg_N a \<and>
           mset (zip (cats_of a) cl') = mset (zip (cats_of a) (arg_clusters a))"
    and "stderr w' = stderr w"
proof -
  note A = distance_anticlustering_ok[OF ok pre, THEN conjunct1, rule_format, OF r]
  from A show "\<exists>cl'. out = (dist_after a)\<lparr>arg_clusters := cl'\<rparr> \<and> length cl' = arg_N a \<and>
           mset (zip (cats_of a) cl') = mset (zip (cats_of a) (arg_clusters a))"
    by (rule conjunct1)
  from A show "stderr w' = stderr w" by (rule conjunct2)
qed

lemma distance_anticlustering_result:
  assumes pre: "dist_pre a" and r: "distance_anticlustering ok a w = Inr (out, w')"
  shows "\<exists>cl'. out = (dist_after a)\<lparr>arg_clusters := cl'\<rparr> \<and> length cl' = arg_N a \<and>
           mset (zip (cats_of a) cl') = mset (zip (cats_of a) (arg_clusters a))"
proof (cases "all_ok ok (mallocs w + arg_N a) (checked_allocs a)")
  case True
  from distance_anticlustering_ok_result(1)[OF True pre r] show ?thesis .
next
  case False
  from distance_anticlustering_fail[OF False] obtain w2 where
    "distance_anticlustering ok a w = Inr (dist_after a, w2)" by (elim exE conjE)
  with r have o: "out = dist_after a" by simp
  have "length (arg_clusters a) = arg_N a"
    using pre by (simp add: dist_pre_def clusters_ok_def)
  then have "out = (dist_after a)\<lparr>arg_clusters := arg_clusters a\<rparr> \<and> length (arg_clusters a) = arg_N a \<and>
           mset (zip (cats_of a) (arg_clusters a)) = mset (zip (cats_of a) (arg_clusters a))"
    using o by (simp add: dist_after_def)
  then show ?thesis by (rule exI)
qed

lemma distance_anticlustering_returns:
  assumes pre: "dist_pre a" and nn: "\<forall>x<arg_N a. \<forall>y<arg_N a. 0 \<le> arg_data a ! (y * arg_N a + x)"
  shows "\<exists>out w'. distance_anticlustering ok a w = Inr (out, w')"
proof (cases "all_ok ok (mallocs w + arg_N a) (checked_allocs a)")
  case True
  from distance_anticlustering_ok[OF True pre, THEN conjunct2, THEN mp, OF nn]
  show ?thesis .
next
  case False
  from distance_anticlustering_fail[OF False] obtain w2 where
    "distance_anticlustering ok a w = Inr (dist_after a, w2)" by (elim exE conjE)
  then show ?thesis by (intro exI)
qed

lemma c_anticlustering_result:
  assumes cl: "clusters_ok (arg_N a) (arg_K a) (arg_clusters a)"
    and r: "c_anticlustering ok a w = Inr (out, w')"
  shows "\<exists>cl'. out = a\<lparr>arg_clusters := cl'\<rparr> \<and> mset cl' = mset (arg_clusters a)"
proof (cases "all_ok ok (mallocs w) (arg_N a + arg_K a + arg_N a)")
  case True
  from c_anticlustering_ok[OF True cl] obtain cl' where
    "c_anticlustering ok a w = Inr (a\<lparr>arg_clusters := cl'\<rparr>,
        w\<lparr>mallocs := mallocs w + (arg_N a + arg_K a + arg_N a)\<rparr>)" "mset cl' = mset (arg_clusters a)"
    by (elim exE conjE)
  with r have "out = a\<lparr>arg_clusters := cl'\<rparr> \<and> mset cl' = mset (arg_clusters a)" by simp
  then show ?thesis by (intro exI)
next
  case False
  from c_anticlustering_fail[OF False] r have "out = a" by auto
  then have "out = a\<lparr>arg_clusters := arg_clusters a\<rparr> \<and>
      mset (arg_clusters a) = mset (arg_clusters a)" by simp
  then show ?thesis by (intro exI)
qed

section \<open>The incremental update of the diversity objective\<close>

text \<open>
  \<^verbatim>\<open>distances_within\<close> adds the distances of the pairs of a chain once each, in the order of
  the chain. For a symmetric matrix the sum does not depend on the order, and exchanging one
  member for an element from outside changes it by the rows of the two elements.
\<close>

lemma distances_one_element_ids:
  "distances_one_element D chain e s = (\<Sum>x\<leftarrow>node_ids s chain. D ! e ! x)"
  by (simp add: distances_one_element_eq node_ids_def comp_def)

lemma distances_within_loop_pairs:
  "distances_within_loop D chain s acc = acc + pairs_once D (node_ids s chain)"
proof (induction chain arbitrary: acc)
  case Nil
  then show ?case by (simp add: node_ids_def)
next
  case (Cons a chain)
  have "node_ids s (a # chain) = ID (POINTS s ! (NODE_DATA s ! a)) # node_ids s chain"
    by (simp add: node_ids_def)
  then show ?case by (simp add: Cons.IH distances_one_element_ids)
qed

lemma distances_within_pairs:
  "distances_within D chain s = pairs_once D (node_ids s chain)"
  by (simp add: distances_within_def distances_within_loop_pairs)

lemma sum_list_mset_cong:
  fixes f :: "nat \<Rightarrow> real"
  assumes "mset xs = mset ys"
  shows "sum_list (map f xs) = sum_list (map f ys)"
proof -
  have "sum_list (map f xs) = sum_mset (image_mset f (mset xs))"
    by (metis mset_map sum_mset_sum_list)
  also have "\<dots> = sum_mset (image_mset f (mset ys))" using assms by simp
  also have "\<dots> = sum_list (map f ys)" by (metis mset_map sum_mset_sum_list)
  finally show ?thesis .
qed

lemma pairs_once_double:
  assumes "\<forall>x\<in>set xs. x < n" and "symmetric_matrix n D"
  shows "2 * pairs_once D xs = (\<Sum>e\<leftarrow>xs. \<Sum>e'\<leftarrow>xs. D ! e ! e') - (\<Sum>e\<leftarrow>xs. D ! e ! e)"
  using assms(1)
proof (induction xs)
  case Nil
  then show ?case by simp
next
  case (Cons x xs)
  have sym: "(\<Sum>e\<leftarrow>xs. D ! e ! x) = (\<Sum>e\<leftarrow>xs. D ! x ! e)"
    using Cons.prems assms(2) by (intro arg_cong[of _ _ sum_list] map_cong) (auto simp: symmetric_matrix_def)
  have "(\<Sum>e\<leftarrow>xs. \<Sum>e'\<leftarrow>x # xs. D ! e ! e') = (\<Sum>e\<leftarrow>xs. D ! e ! x) + (\<Sum>e\<leftarrow>xs. \<Sum>e'\<leftarrow>xs. D ! e ! e')"
    by (simp add: sum_list_addf)
  moreover have "2 * pairs_once D xs = (\<Sum>e\<leftarrow>xs. \<Sum>e'\<leftarrow>xs. D ! e ! e') - (\<Sum>e\<leftarrow>xs. D ! e ! e)"
    using Cons by simp
  ultimately show ?case using sym by simp
qed

lemma pairs_once_mset:
  assumes "mset xs = mset ys" and "\<forall>x\<in>set xs. x < n" and "symmetric_matrix n D"
  shows "pairs_once D xs = pairs_once D ys"
proof -
  have ys: "\<forall>x\<in>set ys. x < n" using assms(1,2) by (metis mset_eq_setD)
  have inner: "(\<Sum>e'\<leftarrow>xs. D ! e ! e') = (\<Sum>e'\<leftarrow>ys. D ! e ! e')" for e
    using assms(1) by (rule sum_list_mset_cong)
  have "(\<Sum>e\<leftarrow>xs. \<Sum>e'\<leftarrow>xs. D ! e ! e') = (\<Sum>e\<leftarrow>xs. \<Sum>e'\<leftarrow>ys. D ! e ! e')"
    by (simp add: inner)
  also have "\<dots> = (\<Sum>e\<leftarrow>ys. \<Sum>e'\<leftarrow>ys. D ! e ! e')"
    using assms(1) by (rule sum_list_mset_cong)
  finally have a: "(\<Sum>e\<leftarrow>xs. \<Sum>e'\<leftarrow>xs. D ! e ! e') = (\<Sum>e\<leftarrow>ys. \<Sum>e'\<leftarrow>ys. D ! e ! e')" .
  have b: "(\<Sum>e\<leftarrow>xs. D ! e ! e) = (\<Sum>e\<leftarrow>ys. D ! e ! e)"
    using assms(1) by (rule sum_list_mset_cong)
  have "2 * pairs_once D xs = 2 * pairs_once D ys"
    unfolding pairs_once_double[OF assms(2,3)] pairs_once_double[OF ys assms(3)] using a b by simp
  then show ?thesis by simp
qed

lemma mset_replace:
  assumes d: "distinct A" and i: "i \<in> set A"
  shows "mset A = mset (i # remove1 i A)"
    and "mset (map (\<lambda>x. if x = i then j else x) A) = mset (j # remove1 i A)"
proof -
  let ?f = "\<lambda>x. if x = i then j else x"
  let ?R = "remove1 i A"
  show m1: "mset A = mset (i # ?R)" using i by simp
  have iR: "i \<notin> set ?R" using d by simp
  have id: "map ?f ?R = ?R" using iR by (intro map_idI) auto
  have "mset (map ?f A) = image_mset ?f (mset A)" by simp
  also have "\<dots> = image_mset ?f (mset (i # ?R))" by (simp only: m1)
  also have "\<dots> = add_mset j (mset (map ?f ?R))" by simp
  also have "\<dots> = mset (j # ?R)" by (simp only: id mset.simps)
  finally show "mset (map ?f A) = mset (j # ?R)" .
qed

lemma pairs_once_exchange:
  assumes d: "distinct A" and i: "i \<in> set A" and j: "j \<notin> set A" and lt: "\<forall>x\<in>set A. x < n"
    and jn: "j < n" and sym: "symmetric_matrix n D" and z: "zero_diagonal n D"
  shows "pairs_once D A - (\<Sum>x\<leftarrow>A. D ! i ! x) + (\<Sum>x\<leftarrow>map (\<lambda>x. if x = i then j else x) A. D ! j ! x)
         = pairs_once D (map (\<lambda>x. if x = i then j else x) A)"
proof -
  define B where "B = map (\<lambda>x. if x = i then j else x) A"
  define R where "R = remove1 i A"
  have m1: "mset A = mset (i # R)" and m2: "mset B = mset (j # R)"
    unfolding B_def R_def using mset_replace[OF d i] by blast+
  have ltn: "i < n" using i lt by auto
  have lt2: "\<forall>x\<in>set B. x < n" using lt jn by (auto simp: B_def)
  have zi: "D ! i ! i = 0" and zj: "D ! j ! j = 0" using z ltn jn by (simp_all add: zero_diagonal_def)
  have "pairs_once D A = pairs_once D (i # R)" using m1 lt sym by (rule pairs_once_mset)
  then have p1: "pairs_once D A = (\<Sum>x\<leftarrow>R. D ! i ! x) + pairs_once D R" by simp
  have "pairs_once D B = pairs_once D (j # R)" using m2 lt2 sym by (rule pairs_once_mset)
  then have p2: "pairs_once D B = (\<Sum>x\<leftarrow>R. D ! j ! x) + pairs_once D R" by simp
  have "(\<Sum>x\<leftarrow>A. D ! i ! x) = (\<Sum>x\<leftarrow>i # R. D ! i ! x)" using m1 by (rule sum_list_mset_cong)
  then have s1: "(\<Sum>x\<leftarrow>A. D ! i ! x) = (\<Sum>x\<leftarrow>R. D ! i ! x)" using zi by simp
  have "(\<Sum>x\<leftarrow>B. D ! j ! x) = (\<Sum>x\<leftarrow>j # R. D ! j ! x)" using m2 by (rule sum_list_mset_cong)
  then have s2: "(\<Sum>x\<leftarrow>B. D ! j ! x) = (\<Sum>x\<leftarrow>R. D ! j ! x)" using zj by simp
  have "pairs_once D A - (\<Sum>x\<leftarrow>A. D ! i ! x) + (\<Sum>x\<leftarrow>B. D ! j ! x) = pairs_once D B"
    using p1 p2 s1 s2 by linarith
  then show ?thesis by (simp only: B_def)
qed

lemma node_ids_eq:
  assumes "consistent n s" "\<forall>a\<in>set chain. a < n"
  shows "node_ids s chain = map (\<lambda>a. NODE_DATA s ! a) chain"
  using node_ID(1)[OF assms(1)] assms(2) by (simp add: node_ids_def)

lemma node_ids_swap:
  assumes c: "consistent n s" and i: "i < n" and j: "j < n" and ch: "\<forall>a\<in>set chain. a < n"
  shows "node_ids (swap i j s) chain
       = map (\<lambda>x. if x = i then j else if x = j then i else x) (node_ids s chain)"
proof -
  have fw: "PTR_NODES s ! e < n" "NODE_DATA s ! (PTR_NODES s ! e) = e"
    if "e < n" for e using c that by (simp_all add: consistent_def)
  have bw: "NODE_DATA s ! x < n" "PTR_NODES s ! (NODE_DATA s ! x) = x"
    if "x < n" for x using c that by (simp_all add: consistent_def)
  have "NODE_DATA (swap i j s) ! x
      = (if NODE_DATA s ! x = i then j else if NODE_DATA s ! x = j then i else NODE_DATA s ! x)"
    if x: "x < n" for x
  proof -
    have "x = PTR_NODES s ! i \<longleftrightarrow> NODE_DATA s ! x = i" using fw[OF i] bw[OF x] by auto
    moreover have "x = PTR_NODES s ! j \<longleftrightarrow> NODE_DATA s ! x = j" using fw[OF j] bw[OF x] by auto
    ultimately show ?thesis unfolding swap_NODE_DATA[OF c i j x] by auto
  qed
  then show ?thesis
    unfolding node_ids_eq[OF swap_consistent[OF c i j] ch] node_ids_eq[OF c ch]
    using ch by simp
qed

lemma node_ids_members:
  assumes c: "consistent n s" and ch: "chains_ok n k s" and ck: "c < k"
  shows "distinct (node_ids s (CHAINS s ! c))"
    and "set (node_ids s (CHAINS s ! c)) = {e. e < n \<and> cluster (POINTS s ! e) = c}"
    and "mset (node_ids s (CHAINS s ! c)) = mset (members (map cluster (POINTS s)) c)"
proof -
  have fw: "PTR_NODES s ! e < n" "NODE_DATA s ! (PTR_NODES s ! e) = e"
    if "e < n" for e using c that by (simp_all add: consistent_def)
  have bw: "NODE_DATA s ! x < n" "PTR_NODES s ! (NODE_DATA s ! x) = x"
    if "x < n" for x using c that by (simp_all add: consistent_def)
  have len: "length (POINTS s) = n" using c by (simp add: consistent_def)
  from ch ck have d: "distinct (CHAINS s ! c)"
    and st: "set (CHAINS s ! c) = {x. x < n \<and> cluster (POINTS s ! (NODE_DATA s ! x)) = c}"
    by (simp_all add: chains_ok_def)
  have lt: "\<forall>x\<in>set (CHAINS s ! c). x < n" using st by simp
  have inj: "inj_on (\<lambda>x. NODE_DATA s ! x) (set (CHAINS s ! c))"
    using lt bw(2) by (intro inj_onI) metis
  show D: "distinct (node_ids s (CHAINS s ! c))"
    unfolding node_ids_eq[OF c lt] using d inj by (simp add: distinct_map)
  show S: "set (node_ids s (CHAINS s ! c)) = {e. e < n \<and> cluster (POINTS s ! e) = c}"
  proof (intro set_eqI iffI)
    fix e assume "e \<in> set (node_ids s (CHAINS s ! c))"
    then obtain x where "x \<in> set (CHAINS s ! c)" "e = NODE_DATA s ! x"
      unfolding node_ids_eq[OF c lt] by auto
    then have "x < n" "cluster (POINTS s ! (NODE_DATA s ! x)) = c" "e = NODE_DATA s ! x"
      using st by simp_all
    then show "e \<in> {e. e < n \<and> cluster (POINTS s ! e) = c}" using bw(1) by simp
  next
    fix e assume "e \<in> {e. e < n \<and> cluster (POINTS s ! e) = c}"
    then have e: "e < n" "cluster (POINTS s ! e) = c" by simp_all
    then have "PTR_NODES s ! e \<in> set (CHAINS s ! c)" using fw[OF e(1)] st by simp
    then have "NODE_DATA s ! (PTR_NODES s ! e) \<in> set (node_ids s (CHAINS s ! c))"
      unfolding node_ids_eq[OF c lt] by simp
    then show "e \<in> set (node_ids s (CHAINS s ! c))" using fw(2)[OF e(1)] by simp
  qed
  have "set (members (map cluster (POINTS s)) c) = {e. e < n \<and> cluster (POINTS s ! e) = c}"
    using len by (auto simp: members_def)
  moreover have "distinct (members (map cluster (POINTS s)) c)" by (simp add: members_def)
  ultimately show "mset (node_ids s (CHAINS s ! c)) = mset (members (map cluster (POINTS s)) c)"
    using D S by (simp add: set_eq_iff_mset_eq_distinct[symmetric])
qed

lemma diversity_of_chain:
  assumes c: "consistent n s" and ch: "chains_ok n k s" and ck: "c < k"
    and sym: "symmetric_matrix n D"
  shows "distances_within D (CHAINS s ! c) s = diversity_of D (map cluster (POINTS s)) c"
proof -
  have "\<forall>x\<in>set (node_ids s (CHAINS s ! c)). x < n"
    unfolding node_ids_members(2)[OF c ch ck] by simp
  from pairs_once_mset[OF node_ids_members(3)[OF c ch ck] this sym]
  show ?thesis by (simp add: distances_within_pairs diversity_of_def)
qed

lemma dist_tentative_values:
  assumes "a \<noteq> b" "a < k" "b < k"
  shows "fst (dist_tentative k D i j a b v s) = swap i j s"
    and "snd (dist_tentative k D i j a b v s) ! a
       = v ! a - distances_one_element D (CHAINS s ! a) i s
           + distances_one_element D (CHAINS (swap i j s) ! a) j (swap i j s)"
    and "snd (dist_tentative k D i j a b v s) ! b
       = v ! b - distances_one_element D (CHAINS s ! b) j s
           + distances_one_element D (CHAINS (swap i j s) ! b) i (swap i j s)"
  using assms by (simp_all add: dist_tentative_def Let_def copy_array_def nth_list_update)

lemma tentative_cluster:
  assumes c: "consistent n s" and ch: "chains_ok n k s" and i: "i < n" and j: "j < n"
    and ak: "a < k" and pq: "p = i \<and> q = j \<or> p = j \<and> q = i"
    and cp: "cluster (POINTS s ! p) = a" and cq: "cluster (POINTS s ! q) \<noteq> a"
    and sym: "symmetric_matrix n D" and z: "zero_diagonal n D"
  shows "distances_within D (CHAINS s ! a) s - distances_one_element D (CHAINS s ! a) p s
           + distances_one_element D (CHAINS (swap i j s) ! a) q (swap i j s)
         = distances_within D (CHAINS (swap i j s) ! a) (swap i j s)"
proof -
  let ?A = "node_ids s (CHAINS s ! a)"
  let ?f = "\<lambda>x. if x = p then q else x"
  have p: "p < n" and q: "q < n" using pq i j by auto
  have lt: "\<forall>x\<in>set (CHAINS s ! a). x < n" using ch ak by (simp add: chains_ok_def)
  have d: "distinct ?A" and S: "set ?A = {e. e < n \<and> cluster (POINTS s ! e) = a}"
    using node_ids_members(1,2)[OF c ch ak] by simp_all
  have pA: "p \<in> set ?A" and qA: "q \<notin> set ?A" using S p cp cq by simp_all
  have ltA: "\<forall>x\<in>set ?A. x < n" using S by simp
  have "node_ids (swap i j s) (CHAINS s ! a)
      = map (\<lambda>x. if x = i then j else if x = j then i else x) ?A"
    using node_ids_swap[OF c i j lt] .
  also have "\<dots> = map ?f ?A" using qA pq by (intro map_cong) auto
  finally have A': "node_ids (swap i j s) (CHAINS s ! a) = map ?f ?A" .
  from pairs_once_exchange[OF d pA qA ltA q sym z]
  show ?thesis
    unfolding swap_lengths(4)[OF c i j] distances_within_pairs distances_one_element_ids A' .
qed

section \<open>The partner read by the commit\<close>

text \<open>
  The inner loops do not read \<^verbatim>\<open>best_partner\<close>: run from two states that differ in that
  variable only, they either both record the same partner, with a value of the objective above
  the one they started from, or both leave their state as it was.
\<close>

lemma var_improved_mono: "var_improved J st st' \<Longrightarrow> best_objective st \<le> best_objective st'"
  by (auto simp: var_improved_def)

lemma var_partner_stale:
  assumes c: "consistent n (lists st)" and i: "i < n" and j: "j < n"
  shows "(var_partner k m fr i cl1 j (st\<lparr>best_partner := b\<rparr>) = var_partner k m fr i cl1 j st
          \<and> best_objective st < best_objective (var_partner k m fr i cl1 j st))
       \<or> (var_partner k m fr i cl1 j (st\<lparr>best_partner := b\<rparr>) = st\<lparr>best_partner := b\<rparr>
          \<and> var_partner k m fr i cl1 j st = st)"
proof -
  let ?sb = "st\<lparr>best_partner := b\<rparr>"
  have cb: "consistent n (lists ?sb)" using c by simp
  let ?cl2 = "cluster (POINTS (lists st) ! (NODE_DATA (lists st) ! (PTR_NODES (lists st) ! j)))"
  let ?t = "var_tentative k m fr i j cl1 ?cl2 (CENTERS st) (OBJECTIVE_BY_CLUSTER st) (lists st)"
  let ?cl2b = "cluster (POINTS (lists ?sb) ! (NODE_DATA (lists ?sb) ! (PTR_NODES (lists ?sb) ! j)))"
  let ?tb = "var_tentative k m fr i j cl1 ?cl2b (CENTERS ?sb) (OBJECTIVE_BY_CLUSTER ?sb) (lists ?sb)"
  have tb: "?tb = ?t" and cl2b: "?cl2b = ?cl2" by simp_all
  show ?thesis
  proof (cases "cl1 \<noteq> ?cl2 \<and> best_objective st < array_sum k (snd (snd ?t))")
    case True
    then have Tb: "cl1 \<noteq> ?cl2b \<and> best_objective ?sb < array_sum k (snd (snd ?tb))" by simp
    have a: "var_partner k m fr i cl1 j st = st\<lparr>best_objective := array_sum k (snd (snd ?t)),
                best_centers := copy_matrix k m (fst (snd ?t)),
                best_objectives := copy_array k (snd (snd ?t)),
                best_partner := Some j\<rparr>"
      unfolding var_partner_eq[OF c i j] Let_def by (rule if_P[OF True])
    have "var_partner k m fr i cl1 j ?sb = ?sb\<lparr>best_objective := array_sum k (snd (snd ?tb)),
                best_centers := copy_matrix k m (fst (snd ?tb)),
                best_objectives := copy_array k (snd (snd ?tb)),
                best_partner := Some j\<rparr>"
      unfolding var_partner_eq[OF cb i j] Let_def by (rule if_P[OF Tb])
    also have "\<dots> = st\<lparr>best_objective := array_sum k (snd (snd ?t)),
                best_centers := copy_matrix k m (fst (snd ?t)),
                best_objectives := copy_array k (snd (snd ?t)),
                best_partner := Some j\<rparr>"
      unfolding tb by simp
    finally have b: "var_partner k m fr i cl1 j ?sb = var_partner k m fr i cl1 j st"
      unfolding a .
    have "best_objective st < best_objective (var_partner k m fr i cl1 j st)"
      unfolding a using True by simp
    with b show ?thesis by (intro disjI1 conjI)
  next
    case False
    then have Fb: "\<not> (cl1 \<noteq> ?cl2b \<and> best_objective ?sb < array_sum k (snd (snd ?tb)))" by simp
    have a: "var_partner k m fr i cl1 j st = st"
      unfolding var_partner_eq[OF c i j] Let_def by (rule if_not_P[OF False])
    have b: "var_partner k m fr i cl1 j ?sb = ?sb"
      unfolding var_partner_eq[OF cb i j] Let_def by (rule if_not_P[OF Fb])
    from a b show ?thesis by (intro disjI2 conjI)
  qed
qed

lemma var_fold_stale:
  assumes "consistent n (lists st)" "i < n" "\<forall>j\<in>set js. j < n"
  shows "(fold (var_partner k m fr i cl1) js (st\<lparr>best_partner := b\<rparr>)
            = fold (var_partner k m fr i cl1) js st
          \<and> best_objective st < best_objective (fold (var_partner k m fr i cl1) js st))
       \<or> (fold (var_partner k m fr i cl1) js (st\<lparr>best_partner := b\<rparr>) = st\<lparr>best_partner := b\<rparr>
          \<and> fold (var_partner k m fr i cl1) js st = st)"
  using assms
proof (induction js arbitrary: st)
  case Nil
  then show ?case by simp
next
  case (Cons j js)
  let ?f = "var_partner k m fr i cl1"
  have j: "j < n" and js: "\<forall>j\<in>set js. j < n" using Cons.prems(3) by simp_all
  from var_partner_stale[OF Cons.prems(1,2) j, of k m fr cl1 b]
  show ?case
  proof (elim disjE conjE)
    assume e: "?f j (st\<lparr>best_partner := b\<rparr>) = ?f j st" and l: "best_objective st < best_objective (?f j st)"
    have "var_improved {j} st (?f j st)" using var_partner_improved[OF Cons.prems(1,2) j] .
    then have "consistent n (lists (?f j st))" using Cons.prems(1) by (simp add: var_improved_lists)
    from var_fold_improved[OF this Cons.prems(2) js, of k m fr cl1]
    have "best_objective (?f j st) \<le> best_objective (fold ?f js (?f j st))"
      by (rule var_improved_mono)
    with l e show ?thesis by simp
  next
    assume e: "?f j (st\<lparr>best_partner := b\<rparr>) = st\<lparr>best_partner := b\<rparr>" and u: "?f j st = st"
    from Cons.IH[OF Cons.prems(1,2) js] e u show ?thesis by simp
  qed
qed

lemma var_search_partner:
  assumes c: "consistent n (lists st)" and i: "i < n" and s0: "0 \<le> SUM_VAR_OBJECTIVE st"
    and commit: "SUM_VAR_OBJECTIVE (var_search n k m fr i st) < best_objective (var_search n k m fr i st)"
  shows "\<exists>j<n. \<forall>b. best_partner (var_search n k m fr i (st\<lparr>best_partner := b\<rparr>)) = Some j"
proof -
  define cl1 where "cl1 = cluster (POINTS (lists st) ! (NODE_DATA (lists st) ! (PTR_NODES (lists st) ! i)))"
  define st0 where "st0 = st\<lparr>best_objective := 0, best_centers := copy_matrix k m (CENTERS st),
                 best_objectives := copy_array k (OBJECTIVE_BY_CLUSTER st)\<rparr>"
  define st1 where "st1 = fold (var_partner k m fr i cl1) [0..<n] st0"
  have c0: "consistent n (lists st0)" using c by (simp add: st0_def)
  have st1: "var_search n k m fr i st = st1"
    by (simp add: var_search_def Let_def st1_def st0_def cl1_def)
  have comm: "st\<lparr>best_partner := b\<rparr>\<lparr>best_objective := 0, best_centers := copy_matrix k m (CENTERS st),
                 best_objectives := copy_array k (OBJECTIVE_BY_CLUSTER st)\<rparr> = st0\<lparr>best_partner := b\<rparr>" for b
    unfolding st0_def by (cases st) simp
  have stb: "var_search n k m fr i (st\<lparr>best_partner := b\<rparr>)
      = fold (var_partner k m fr i cl1) [0..<n] (st0\<lparr>best_partner := b\<rparr>)" for b
    unfolding comm[symmetric] by (simp add: var_search_def Let_def cl1_def)
  have lt: "\<forall>j\<in>set [0..<n]. j < n" by simp
  have imp: "var_improved (set [0..<n]) st0 st1"
    unfolding st1_def by (rule var_fold_improved[OF c0 i lt])
  from imp consider "st1 = st0" |
    bo bc bos j where "j \<in> set [0..<n]" "best_objective st0 < bo"
      "st1 = st0\<lparr>best_objective := bo, best_centers := bc, best_objectives := bos, best_partner := Some j\<rparr>"
    unfolding var_improved_def by blast
  then show ?thesis
  proof cases
    case 1
    with commit s0 show ?thesis by (simp add: st1 st0_def)
  next
    case 2
    have ne: "st1 \<noteq> st0"
    proof
      assume "st1 = st0"
      then have "best_objective st1 = best_objective st0" by simp
      with 2(2,3) show False by simp
    qed
    have "var_search n k m fr i (st\<lparr>best_partner := b\<rparr>) = st1" for b
      using var_fold_stale[OF c0 i lt, of k m fr cl1 b] ne unfolding stb st1_def by blast
    moreover have "best_partner st1 = Some j" by (simp add: 2(3))
    moreover have "j < n" using 2(1) by simp
    ultimately show ?thesis by auto
  qed
qed

lemma dist_improved_mono: "dist_improved J st st' \<Longrightarrow> best_obj st \<le> best_obj st'"
  by (auto simp: dist_improved_def)

lemma dist_partner_stale:
  assumes c: "consistent n (lists st)" and i: "i < n" and j: "j < n"
  shows "(dist_partner k D i cl1 j (st\<lparr>best_partner := b\<rparr>) = dist_partner k D i cl1 j st
          \<and> best_obj st < best_obj (dist_partner k D i cl1 j st))
       \<or> (dist_partner k D i cl1 j (st\<lparr>best_partner := b\<rparr>) = st\<lparr>best_partner := b\<rparr>
          \<and> dist_partner k D i cl1 j st = st)"
proof -
  let ?sb = "st\<lparr>best_partner := b\<rparr>"
  have cb: "consistent n (lists ?sb)" using c by simp
  let ?cl2 = "cluster (POINTS (lists st) ! (NODE_DATA (lists st) ! (PTR_NODES (lists st) ! j)))"
  let ?t = "dist_tentative k D i j cl1 ?cl2 (OBJ_BY_CLUSTER st) (lists st)"
  let ?cl2b = "cluster (POINTS (lists ?sb) ! (NODE_DATA (lists ?sb) ! (PTR_NODES (lists ?sb) ! j)))"
  let ?tb = "dist_tentative k D i j cl1 ?cl2b (OBJ_BY_CLUSTER ?sb) (lists ?sb)"
  have tb: "?tb = ?t" by simp
  show ?thesis
  proof (cases "cl1 \<noteq> ?cl2 \<and> best_obj st < array_sum k (snd ?t)")
    case True
    then have Tb: "cl1 \<noteq> ?cl2b \<and> best_obj ?sb < array_sum k (snd ?tb)" by simp
    have a: "dist_partner k D i cl1 j st = st\<lparr>best_obj := array_sum k (snd ?t),
                best_objs := copy_array k (snd ?t), best_partner := Some j\<rparr>"
      unfolding dist_partner_eq[OF c i j] Let_def by (rule if_P[OF True])
    have "dist_partner k D i cl1 j ?sb = ?sb\<lparr>best_obj := array_sum k (snd ?tb),
                best_objs := copy_array k (snd ?tb), best_partner := Some j\<rparr>"
      unfolding dist_partner_eq[OF cb i j] Let_def by (rule if_P[OF Tb])
    also have "\<dots> = st\<lparr>best_obj := array_sum k (snd ?t),
                best_objs := copy_array k (snd ?t), best_partner := Some j\<rparr>"
      unfolding tb by simp
    finally have b: "dist_partner k D i cl1 j ?sb = dist_partner k D i cl1 j st"
      unfolding a .
    have "best_obj st < best_obj (dist_partner k D i cl1 j st)"
      unfolding a using True by simp
    with b show ?thesis by (intro disjI1 conjI)
  next
    case False
    then have Fb: "\<not> (cl1 \<noteq> ?cl2b \<and> best_obj ?sb < array_sum k (snd ?tb))" by simp
    have a: "dist_partner k D i cl1 j st = st"
      unfolding dist_partner_eq[OF c i j] Let_def by (rule if_not_P[OF False])
    have b: "dist_partner k D i cl1 j ?sb = ?sb"
      unfolding dist_partner_eq[OF cb i j] Let_def by (rule if_not_P[OF Fb])
    from a b show ?thesis by (intro disjI2 conjI)
  qed
qed

lemma dist_fold_stale:
  assumes "consistent n (lists st)" "i < n" "\<forall>j\<in>set js. j < n"
  shows "(fold (dist_partner k D i cl1) js (st\<lparr>best_partner := b\<rparr>)
            = fold (dist_partner k D i cl1) js st
          \<and> best_obj st < best_obj (fold (dist_partner k D i cl1) js st))
       \<or> (fold (dist_partner k D i cl1) js (st\<lparr>best_partner := b\<rparr>) = st\<lparr>best_partner := b\<rparr>
          \<and> fold (dist_partner k D i cl1) js st = st)"
  using assms
proof (induction js arbitrary: st)
  case Nil
  then show ?case by simp
next
  case (Cons j js)
  let ?f = "dist_partner k D i cl1"
  have j: "j < n" and js: "\<forall>j\<in>set js. j < n" using Cons.prems(3) by simp_all
  from dist_partner_stale[OF Cons.prems(1,2) j, of k D cl1 b]
  show ?case
  proof (elim disjE conjE)
    assume e: "?f j (st\<lparr>best_partner := b\<rparr>) = ?f j st" and l: "best_obj st < best_obj (?f j st)"
    have "dist_improved {j} st (?f j st)" using dist_partner_improved[OF Cons.prems(1,2) j] .
    then have "consistent n (lists (?f j st))" using Cons.prems(1) by (simp add: dist_improved_lists)
    from dist_fold_improved[OF this Cons.prems(2) js, of k D cl1]
    have "best_obj (?f j st) \<le> best_obj (fold ?f js (?f j st))"
      by (rule dist_improved_mono)
    with l e show ?thesis by simp
  next
    assume e: "?f j (st\<lparr>best_partner := b\<rparr>) = st\<lparr>best_partner := b\<rparr>" and u: "?f j st = st"
    from Cons.IH[OF Cons.prems(1,2) js] e u show ?thesis by simp
  qed
qed

lemma dist_search_partner:
  assumes c: "consistent n (lists st)" and i: "i < n"
    and p: "partners_ok n (map category (POINTS (lists st))) CF CH"
    and s0: "0 \<le> SUM_OBJECTIVE st"
    and commit: "SUM_OBJECTIVE (dist_search k D CF CH i st) < best_obj (dist_search k D CF CH i st)"
  shows "\<exists>j<n. \<forall>b. best_partner (dist_search k D CF CH i (st\<lparr>best_partner := b\<rparr>)) = Some j"
proof -
  let ?s = "lists st"
  have len: "length (POINTS ?s) = n" using c by (simp add: consistent_def)
  have own: "NODE_DATA ?s ! (PTR_NODES ?s ! i) = i" using c i by (simp add: consistent_def)
  define cl1 where "cl1 = cluster (POINTS ?s ! (NODE_DATA ?s ! (PTR_NODES ?s ! i)))"
  define st0 where "st0 = st\<lparr>best_obj := 0, best_objs := copy_array k (OBJ_BY_CLUSTER st)\<rparr>"
  define cat_i where "cat_i = category (POINTS ?s ! (NODE_DATA ?s ! (PTR_NODES ?s ! i)))"
  define js where "js = map (\<lambda>u. CH ! cat_i ! u) [0..<CF ! cat_i]"
  define st1 where "st1 = fold (dist_partner k D i cl1) js st0"
  have ci: "cat_i = map category (POINTS ?s) ! i" using own len i by (simp add: cat_i_def)
  have lt: "\<forall>j\<in>set js. j < n"
    using p i unfolding js_def ci partners_ok_def by auto
  have st1: "dist_search k D CF CH i st = st1"
    unfolding st1_def js_def
    by (simp add: fold_map comp_def dist_search_def Let_def st0_def cl1_def cat_i_def)
  have comm: "st\<lparr>best_partner := b\<rparr>\<lparr>best_obj := 0, best_objs := copy_array k (OBJ_BY_CLUSTER st)\<rparr>
      = st0\<lparr>best_partner := b\<rparr>" for b
    unfolding st0_def by (cases st) simp
  have stb: "dist_search k D CF CH i (st\<lparr>best_partner := b\<rparr>)
      = fold (dist_partner k D i cl1) js (st0\<lparr>best_partner := b\<rparr>)" for b
    unfolding comm[symmetric] js_def
    by (simp add: fold_map comp_def dist_search_def Let_def cl1_def cat_i_def)
  have c0: "consistent n (lists st0)" using c by (simp add: st0_def)
  have imp: "dist_improved (set js) st0 st1"
    unfolding st1_def by (rule dist_fold_improved[OF c0 i lt])
  from imp consider "st1 = st0" |
    bo bos j where "j \<in> set js" "best_obj st0 < bo"
      "st1 = st0\<lparr>best_obj := bo, best_objs := bos, best_partner := Some j\<rparr>"
    unfolding dist_improved_def by blast
  then show ?thesis
  proof cases
    case 1
    with commit s0 show ?thesis by (simp add: st1 st0_def)
  next
    case 2
    have ne: "st1 \<noteq> st0"
    proof
      assume "st1 = st0"
      then have "best_obj st1 = best_obj st0" by simp
      with 2(2,3) show False by simp
    qed
    have "dist_search k D CF CH i (st\<lparr>best_partner := b\<rparr>) = st1" for b
      using dist_fold_stale[OF c0 i lt, of k D cl1 b] ne unfolding stb st1_def by blast
    moreover have "best_partner st1 = Some j" by (simp add: 2(3))
    moreover have "j < n" using 2(1) lt by simp
    ultimately show ?thesis by auto
  qed
qed

lemma c_anticlustering_partner:
  assumes "clusters_ok (arg_N a) (arg_K a) (arg_clusters a)"
  shows "c_anticlustering ok a w \<noteq> Inl Uninitialized_best_partner"
proof (cases "all_ok ok (mallocs w) (arg_N a + arg_K a + arg_N a)")
  case True
  from c_anticlustering_ok[OF True assms] show ?thesis by auto
next
  case False
  from c_anticlustering_fail[OF False] show ?thesis by auto
qed

section \<open>Claims about swap\<close>

text \<open>
  C2. For every pair of element ids \<open>i\<close>, \<open>j\<close> and every reachable state of the membership
  index, \<^verbatim>\<open>swap(i, j); swap(i, j)\<close> restores the state exactly: every element's cluster
  field (and ID), the node-to-element bindings of the cluster lists and the handle array
  \<^verbatim>\<open>PTR_NODES\<close>.
\<close>

theorem swap_twice_restores:
  assumes "points_ok n k clusters points" and "reachable n k clusters points s"
    and "i < n" and "j < n"
  shows "swap i j (swap i j s) = s"
proof -
  from reachable_consistent[OF assms(2) assms(1)] have "consistent n s" by simp
  from swap_swap[OF this assms(3) assms(4)] show ?thesis .
qed

definition example_points :: "element list" where
  "example_points =
    [\<lparr>ID = 0, cluster = 0, category = 0, vals = []\<rparr>,
     \<lparr>ID = 1, cluster = 1, category = 0, vals = []\<rparr>,
     \<lparr>ID = 2, cluster = 1, category = 0, vals = []\<rparr>]"

definition example_index :: membership where
  "example_index =
    \<lparr>POINTS = example_points, NODE_DATA = [0, 1, 2], PTR_NODES = [0, 1, 2],
     CHAINS = [[0], [2, 1]]\<rparr>"

lemma example_points_ok: "points_ok 3 2 [0, 1, 1] example_points"
  by (simp add: points_ok_def example_points_def less_Suc_eq numeral_3_eq_3)

lemma example_index_init:
  "fill_cluster_lists (\<lambda>t. True) 3 2 [0, 1, 1] example_points (replicate 2 [])
     \<lparr>mallocs = 0, stderr = []\<rparr>
     = (Some example_index, \<lparr>mallocs = 3, stderr = []\<rparr>)"
  by (simp add: fill_cluster_lists_def upt_rec append_element_to_cluster_eq example_index_def
      numeral_2_eq_2)

lemma example_index_reachable: "reachable 3 2 [0, 1, 1] example_points example_index"
  using reachable.init[OF example_index_init] .

theorem swap_twice_restores_witness:
  "points_ok 3 2 [0, 1, 1] example_points \<and> reachable 3 2 [0, 1, 1] example_points example_index
   \<and> (0::nat) < 3 \<and> (2::nat) < 3
   \<and> swap 0 2 example_index \<noteq> example_index
   \<and> swap 0 2 (swap 0 2 example_index) = example_index"
proof -
  have ne: "swap 0 2 example_index \<noteq> example_index"
    by (simp add: swap_def example_index_def example_points_def set_PTR_NODES_def set_ID_def
        set_cluster_def set_data_def Let_def)
  have "swap 0 2 (swap 0 2 example_index) = example_index"
    using swap_twice_restores[OF example_points_ok example_index_reachable, of 0 2] by simp
  with ne example_points_ok example_index_reachable show ?thesis by simp
qed

text \<open>
  C3. In every state reachable from initialization and for every \<open>i\<close>, \<open>j\<close>, after
  \<^verbatim>\<open>swap(i, j)\<close> the identity \<^verbatim>\<open>PTR_NODES[e]->data->ID == e\<close> holds for every element id
  \<open>e\<close>: the two consecutive writes to the \<^verbatim>\<open>ID\<close> field of one element leave it at its own
  value.
\<close>

theorem swap_keeps_handle_identity:
  assumes "points_ok n k clusters points" and "reachable n k clusters points s"
    and "i < n" and "j < n" and "e < n"
  shows "ID (POINTS (swap i j s) ! (NODE_DATA (swap i j s) ! (PTR_NODES (swap i j s) ! e))) = e"
proof -
  from reachable_consistent[OF assms(2) assms(1)] have "consistent n s" by simp
  from swap_consistent[OF this assms(3) assms(4)] have "consistent n (swap i j s)" .
  with assms(5) show ?thesis by (simp add: consistent_def)
qed

theorem swap_keeps_handle_identity_witness:
  "points_ok 3 2 [0, 1, 1] example_points \<and> reachable 3 2 [0, 1, 1] example_points example_index
   \<and> (0::nat) < 3 \<and> (2::nat) < 3 \<and> (2::nat) < 3
   \<and> PTR_NODES (swap 0 2 example_index) ! 2 = 0
   \<and> ID (POINTS (swap 0 2 example_index) ! (NODE_DATA (swap 0 2 example_index)
        ! (PTR_NODES (swap 0 2 example_index) ! 2))) = 2"
proof -
  have p: "PTR_NODES (swap 0 2 example_index) ! 2 = 0"
    by (simp add: swap_def example_index_def example_points_def set_PTR_NODES_def set_ID_def
        set_cluster_def set_data_def Let_def)
  have "ID (POINTS (swap 0 2 example_index) ! (NODE_DATA (swap 0 2 example_index)
        ! (PTR_NODES (swap 0 2 example_index) ! 2))) = 2"
    using swap_keeps_handle_identity[OF example_points_ok example_index_reachable, of 0 2 2]
    by simp
  with p example_points_ok example_index_reachable show ?thesis by simp
qed


section \<open>Claims about the variance variant\<close>

text \<open>
  The input \<open>N = 3\<close>, \<open>M = 1\<close>, \<open>K = 2\<close>, features \<open>1, 0, 3\<close>, \<open>frequencies = [1, 2]\<close>,
  \<open>clusters = [1, 0, 1]\<close>, and the membership index \<^verbatim>\<open>c_anticlustering\<close> builds for it.
\<close>

definition bug_points :: "element list" where
  "bug_points =
    [\<lparr>ID = 0, cluster = 1, category = 0, vals = [1]\<rparr>,
     \<lparr>ID = 1, cluster = 0, category = 0, vals = [0]\<rparr>,
     \<lparr>ID = 2, cluster = 1, category = 0, vals = [3]\<rparr>]"

definition bug_index :: membership where
  "bug_index = \<lparr>POINTS = bug_points, NODE_DATA = [0, 1, 2], PTR_NODES = [0, 1, 2],
     CHAINS = [[1], [2, 0]]\<rparr>"

definition bug_args :: var_args where
  "bug_args = \<lparr>arg_data = [1, 0, 3], arg_N = 3, arg_K = 2, arg_frequencies = [1, 2],
     arg_clusters = [1, 0, 1], arg_M = 1\<rparr>"

lemma bug_points_init:
  "fill_data_points (\<lambda>t. True) [1, 0, 3] 3 1 [1, 0, 1] \<lparr>mallocs = 0, stderr = []\<rparr>
     = (Inr (Some bug_points), \<lparr>mallocs = 3, stderr = []\<rparr>)"
  by code_simp

lemma bug_index_init:
  "fill_cluster_lists (\<lambda>t. True) 3 2 [1, 0, 1] bug_points [[], []] \<lparr>mallocs = 5, stderr = []\<rparr>
     = (Some bug_index, \<lparr>mallocs = 8, stderr = []\<rparr>)"
  by code_simp

lemma bug_centers_init:
  "map (\<lambda>i. compute_center 1 (CHAINS bug_index ! i) ([1, 2] ! i) bug_index) [0..<2] = [[0], [2]]"
  by code_simp

text \<open>
  C1. On a tentative swap of element \<open>i\<close> in cluster \<open>a\<close> with element \<open>j\<close> in cluster \<open>b\<close> the
  centroid update is \<open>centroid[a] + (f_j - f_i) / frequencies[a]\<close> and
  \<open>centroid[b] + (f_i - f_j) / frequencies[b]\<close>, also for \<open>frequencies[a] \<noteq> frequencies[b]\<close>.

  \<^verbatim>\<open>update_centers\<close> divides the features of each element by the size of the cluster it
  leaves. In the index above, with the centers \<open>[[0], [2]]\<close> that \<^verbatim>\<open>compute_center\<close> gives,
  the swap of element 1 (cluster 0, of size 1) with element 0 (cluster 1, of size 2) sets the
  center of cluster 0 to \<open>1/2\<close>; the update of the specification gives \<open>1\<close>, which is the
  center \<^verbatim>\<open>compute_center\<close> finds for cluster 0 after the swap.
\<close>

theorem update_centers_unequal_sizes:
  "update_centers 2 1 [[0], [2]] (PTR_NODES bug_index ! 1) (PTR_NODES bug_index ! 0) [1, 2] bug_index
     = [[1/2], [3/2]]
   \<and> spec_update_centers 1 [[0], [2]] 0 1 [0] [1] [1, 2] = [[1], [3/2]]
   \<and> compute_center 1 (CHAINS (swap 1 0 bug_index) ! 0) 1 (swap 1 0 bug_index) = [1]"
  by code_simp

text \<open>
  C4. The objective of the output assignment is never less than that of the input assignment.

  For the input above \<^verbatim>\<open>c_anticlustering\<close> returns \<open>clusters = [1, 1, 0]\<close>; the variance
  objective falls from \<open>2\<close> to \<open>1/2\<close>.
\<close>

theorem c_anticlustering_objective_decreases:
  "c_anticlustering all_succeed bug_args start
     = Inr (bug_args\<lparr>arg_clusters := [1, 1, 0]\<rparr>, \<lparr>mallocs = 8, stderr = []\<rparr>)
   \<and> variance_objective [1, 0, 3] 3 1 2 [1, 0, 1] = 2
   \<and> variance_objective [1, 0, 3] 3 1 2 [1, 1, 0] = 1/2"
  by code_simp

section \<open>Claims about whole calls\<close>

text \<open>
  Two inputs of the diversity entry point: four points on a line at 0, 10, 11 and 21 with
  their distance matrix, two clusters of two, once with two categories and once without
  categorical constraints.
\<close>

definition line_data :: "real list" where
  "line_data = [0, 10, 11, 21,  10, 0, 1, 11,  11, 1, 0, 10,  21, 11, 10, 0]"

definition cat_args :: dist_args where
  "cat_args = \<lparr>arg_data = line_data, arg_N = 4, arg_K = 2, arg_frequencies = [2, 2],
     arg_clusters = [0, 0, 1, 1], arg_USE_CATS = 1, arg_C = 2, arg_CAT_frequencies = [2, 2],
     arg_categories = [0, 1, 0, 1]\<rparr>"

definition nocat_args :: dist_args where
  "nocat_args = \<lparr>arg_data = line_data, arg_N = 4, arg_K = 2, arg_frequencies = [2, 2],
     arg_clusters = [0, 0, 1, 1], arg_USE_CATS = 0, arg_C = 0, arg_CAT_frequencies = [0],
     arg_categories = []\<rparr>"

lemma bug_args_ok:
  "clusters_ok (arg_N bug_args) (arg_K bug_args) (arg_clusters bug_args)"
  "sizes_ok (arg_K bug_args) (arg_frequencies bug_args) (arg_clusters bug_args)"
  by (simp_all add: bug_args_def clusters_ok_def sizes_ok_def cluster_size_def less_Suc_eq
      numeral_2_eq_2 numeral_3_eq_3 upt_rec)

lemma cat_args_ok:
  "dist_pre cat_args"
  "sizes_ok (arg_K cat_args) (arg_frequencies cat_args) (arg_clusters cat_args)"
  "arg_USE_CATS cat_args \<noteq> 0"
  by (simp_all add: cat_args_def dist_pre_def clusters_ok_def sizes_ok_def cluster_size_def
      less_Suc_eq numeral_2_eq_2 numeral_3_eq_3 upt_rec eval_nat_numeral)

lemma bug_args_run:
  "c_anticlustering all_succeed bug_args start
     = Inr (bug_args\<lparr>arg_clusters := [1, 1, 0]\<rparr>, \<lparr>mallocs = 8, stderr = []\<rparr>)"
  by code_simp

lemma cat_args_run:
  "distance_anticlustering all_succeed cat_args start
     = Inr (cat_args\<lparr>arg_clusters := [1, 0, 0, 1]\<rparr>, \<lparr>mallocs = 16, stderr = []\<rparr>)"
  by code_simp

text \<open>
  C5. Cluster sizes are conserved by the whole optimization pass: if for every cluster \<open>c\<close>
  the input has \<open>#{i : clusters[i] = c} = frequencies[c]\<close>, so has the output. The statement
  holds for every call of either entry point that returns. A call of \<^verbatim>\<open>c_anticlustering\<close>
  returns when its allocations succeed, and a call of \<^verbatim>\<open>distance_anticlustering\<close> on a matrix
  without negative entries returns whatever allocation fails (the commit then never reads
  \<^verbatim>\<open>best_partner\<close> before it has been assigned).
\<close>

theorem cluster_sizes_conserved:
  assumes "clusters_ok (arg_N va) (arg_K va) (arg_clusters va)"
    and "sizes_ok (arg_K va) (arg_frequencies va) (arg_clusters va)"
    and "dist_pre da"
    and "sizes_ok (arg_K da) (arg_frequencies da) (arg_clusters da)"
  shows "(\<forall>out w'. c_anticlustering ok va w = Inr (out, w') \<longrightarrow>
            sizes_ok (arg_K out) (arg_frequencies out) (arg_clusters out))
       \<and> (all_ok ok (mallocs w) (arg_N va + arg_K va + arg_N va) \<longrightarrow>
            (\<exists>out w'. c_anticlustering ok va w = Inr (out, w')))
       \<and> (\<forall>out w'. distance_anticlustering ok da w = Inr (out, w') \<longrightarrow>
            sizes_ok (arg_K out) (arg_frequencies out) (arg_clusters out))
       \<and> ((\<forall>x<arg_N da. \<forall>y<arg_N da. 0 \<le> arg_data da ! (y * arg_N da + x)) \<longrightarrow>
            (\<exists>out w'. distance_anticlustering ok da w = Inr (out, w')))"
proof (intro conjI allI impI)
  fix out w' assume "c_anticlustering ok va w = Inr (out, w')"
  from c_anticlustering_result[OF assms(1) this]
  obtain cl' where o: "out = va\<lparr>arg_clusters := cl'\<rparr>" and m: "mset cl' = mset (arg_clusters va)"
    by (elim exE conjE)
  have "sizes_ok (arg_K va) (arg_frequencies va) cl'"
    using assms(2) m by (simp add: sizes_ok_def cluster_size_count)
  then show "sizes_ok (arg_K out) (arg_frequencies out) (arg_clusters out)"
    by (simp add: o)
next
  assume "all_ok ok (mallocs w) (arg_N va + arg_K va + arg_N va)"
  from c_anticlustering_ok[OF this assms(1)]
  obtain cl' where "c_anticlustering ok va w = Inr (va\<lparr>arg_clusters := cl'\<rparr>,
        w\<lparr>mallocs := mallocs w + (arg_N va + arg_K va + arg_N va)\<rparr>)"
    by (elim exE conjE)
  then show "\<exists>out w'. c_anticlustering ok va w = Inr (out, w')" by (intro exI)
next
  fix out w' assume r: "distance_anticlustering ok da w = Inr (out, w')"
  from distance_anticlustering_result[OF assms(3) r]
  obtain cl' where o: "out = (dist_after da)\<lparr>arg_clusters := cl'\<rparr>" and l: "length cl' = arg_N da"
    and m: "mset (zip (cats_of da) cl') = mset (zip (cats_of da) (arg_clusters da))"
    by (elim exE conjE)
  have "length (arg_clusters da) = arg_N da"
    using assms(3) by (simp add: dist_pre_def clusters_ok_def)
  then have "mset cl' = mset (arg_clusters da)"
    using l by (intro mset_zip_snd[OF m]) (simp_all add: cats_of_def)
  then have "sizes_ok (arg_K da) (arg_frequencies da) cl'"
    using assms(4) by (simp add: sizes_ok_def cluster_size_count)
  then show "sizes_ok (arg_K out) (arg_frequencies out) (arg_clusters out)"
    by (simp add: o dist_after_simps)
next
  assume "\<forall>x<arg_N da. \<forall>y<arg_N da. 0 \<le> arg_data da ! (y * arg_N da + x)"
  from distance_anticlustering_returns[OF assms(3) this]
  show "\<exists>out w'. distance_anticlustering ok da w = Inr (out, w')" .
qed

theorem cluster_sizes_conserved_witness:
  "clusters_ok (arg_N bug_args) (arg_K bug_args) (arg_clusters bug_args)
   \<and> sizes_ok (arg_K bug_args) (arg_frequencies bug_args) (arg_clusters bug_args)
   \<and> dist_pre cat_args
   \<and> sizes_ok (arg_K cat_args) (arg_frequencies cat_args) (arg_clusters cat_args)
   \<and> c_anticlustering all_succeed bug_args start
        = Inr (bug_args\<lparr>arg_clusters := [1, 1, 0]\<rparr>, \<lparr>mallocs = 8, stderr = []\<rparr>)
   \<and> sizes_ok (arg_K bug_args) (arg_frequencies bug_args) [1, 1, 0]
   \<and> distance_anticlustering all_succeed cat_args start
        = Inr (cat_args\<lparr>arg_clusters := [1, 0, 0, 1]\<rparr>, \<lparr>mallocs = 16, stderr = []\<rparr>)
   \<and> sizes_ok (arg_K cat_args) (arg_frequencies cat_args) [1, 0, 0, 1]"
proof -
  note T = cluster_sizes_conserved[OF bug_args_ok cat_args_ok(1,2), of all_succeed start]
  from T have V: "\<forall>out w'. c_anticlustering all_succeed bug_args start = Inr (out, w') \<longrightarrow>
            sizes_ok (arg_K out) (arg_frequencies out) (arg_clusters out)"
    by (elim conjE)
  have "sizes_ok (arg_K (bug_args\<lparr>arg_clusters := [1, 1, 0]\<rparr>))
      (arg_frequencies (bug_args\<lparr>arg_clusters := [1, 1, 0]\<rparr>))
      (arg_clusters (bug_args\<lparr>arg_clusters := [1, 1, 0]\<rparr>))"
    using V[rule_format, OF bug_args_run] .
  then have 1: "sizes_ok (arg_K bug_args) (arg_frequencies bug_args) [1, 1, 0]" by simp
  from T have D: "\<forall>out w'. distance_anticlustering all_succeed cat_args start = Inr (out, w') \<longrightarrow>
            sizes_ok (arg_K out) (arg_frequencies out) (arg_clusters out)"
    by (elim conjE)
  have "sizes_ok (arg_K (cat_args\<lparr>arg_clusters := [1, 0, 0, 1]\<rparr>))
      (arg_frequencies (cat_args\<lparr>arg_clusters := [1, 0, 0, 1]\<rparr>))
      (arg_clusters (cat_args\<lparr>arg_clusters := [1, 0, 0, 1]\<rparr>))"
    using D[rule_format, OF cat_args_run] .
  then have 2: "sizes_ok (arg_K cat_args) (arg_frequencies cat_args) [1, 0, 0, 1]" by simp
  from 1 2 bug_args_ok cat_args_ok(1,2) bug_args_run cat_args_run show ?thesis by simp
qed

text \<open>
  The conservation of the categories by the calls of \<^verbatim>\<open>distance_anticlustering\<close> that
  return: the partners of an element are taken from the list of its own category.
\<close>

lemma distance_anticlustering_categories:
  assumes "dist_pre a" and "arg_USE_CATS a \<noteq> 0"
    and "distance_anticlustering ok a w = Inr (out, w')"
  shows "category_count (arg_categories a) (arg_clusters out) c k =
         category_count (arg_categories a) (arg_clusters a) c k"
proof -
  from distance_anticlustering_result[OF assms(1,3)]
  obtain cl' where o: "out = (dist_after a)\<lparr>arg_clusters := cl'\<rparr>" and l: "length cl' = arg_N a"
    and m: "mset (zip (cats_of a) cl') = mset (zip (cats_of a) (arg_clusters a))"
    by (elim exE conjE)
  have lc: "length (arg_categories a) = arg_N a" and la: "length (arg_clusters a) = arg_N a"
    using assms(1,2) by (simp_all add: dist_pre_def clusters_ok_def)
  have "cats_of a = map (\<lambda>i. arg_categories a ! i) [0..<length (arg_categories a)]"
    using assms(2) lc by (simp add: cats_of_def)
  then have cats: "cats_of a = arg_categories a" by (simp add: map_nth)
  have "category_count (arg_categories a) cl' c k = count (mset (zip (arg_categories a) cl')) (c, k)"
    using lc l by (intro category_count_zip) simp
  also have "\<dots> = count (mset (zip (arg_categories a) (arg_clusters a))) (c, k)"
    using m cats by simp
  also have "\<dots> = category_count (arg_categories a) (arg_clusters a) c k"
    using lc la by (intro category_count_zip[symmetric]) simp
  finally show ?thesis by (simp add: o)
qed

text \<open>
  An input of the diversity entry point with two categories and a matrix that is \<open>-1\<close> off
  the diagonal.
\<close>

definition neg_data :: "real list" where
  "neg_data = map (\<lambda>t. if t mod 5 = 0 then 0 else - 1) [0..<16]"

definition neg_args :: dist_args where
  "neg_args = \<lparr>arg_data = neg_data, arg_N = 4,
     arg_K = 2, arg_frequencies = [2, 2], arg_clusters = [0, 0, 1, 1], arg_USE_CATS = 1,
     arg_C = 2, arg_CAT_frequencies = [2, 2], arg_categories = [0, 1, 0, 1]\<rparr>"

lemma neg_args_ok:
  "dist_pre neg_args"
  "restore_distances neg_data 4 = [[0, - 1, - 1, - 1], [- 1, 0, - 1, - 1], [- 1, - 1, 0, - 1], [- 1, - 1, - 1, 0]]"
proof -
  show "dist_pre neg_args"
    by (simp add: neg_args_def dist_pre_def clusters_ok_def less_Suc_eq numeral_2_eq_2
        numeral_3_eq_3 upt_rec eval_nat_numeral)
  show "restore_distances neg_data 4 = [[0, - 1, - 1, - 1], [- 1, 0, - 1, - 1], [- 1, - 1, 0, - 1], [- 1, - 1, - 1, 0]]"
    by code_simp
qed

text \<open>
  C6. With \<^verbatim>\<open>USE_CATS = 1\<close>, for every category \<open>c\<close> and cluster \<open>k\<close> the number of elements
  of category \<open>c\<close> in cluster \<open>k\<close> is the same in the output as in the input.

  For the input above the objective of the input assignment is \<open>-2\<close>. In the round of
  element 0 the only partner of its category in the other cluster, element 2, gives the
  objective \<open>-2\<close>, which is not above \<open>best_obj = 0\<close>: no partner is recorded. The test
  \<open>best_obj > SUM_OBJECTIVE\<close> is \<open>0 > -2\<close>, and the commit calls \<^verbatim>\<open>swap\<close> with
  \<^verbatim>\<open>best_partner\<close>, which has never been assigned.
\<close>

theorem categories_uninitialized_partner:
  "distance_anticlustering all_succeed neg_args start = Inl Uninitialized_best_partner
   \<and> arg_USE_CATS neg_args = 1 \<and> arg_categories neg_args = [0, 1, 0, 1]"
  by code_simp

text \<open>The frame of a call, read off the definitions: every branch returns the buffers it got,
  with \<^verbatim>\<open>clusters\<close> (and \<^verbatim>\<open>CAT_frequencies[0]\<close>) replaced at most.\<close>

lemma c_anticlustering_frame:
  assumes "c_anticlustering ok a w = Inr (out, w')"
  shows "out = a\<lparr>arg_clusters := arg_clusters out\<rparr>"
  using assms
  by (auto simp: c_anticlustering_def Let_def split: prod.splits option.splits sum.splits)

lemma distance_anticlustering_frame:
  assumes r: "distance_anticlustering ok a w = Inr (out, w')"
  shows "out = (dist_after a)\<lparr>arg_clusters := arg_clusters out\<rparr>"
proof -
  obtain ps w1 where ps: "dist_points_loop ok (arg_USE_CATS a) (arg_clusters a) (arg_categories a) [0..<arg_N a] [] w
      = (ps, w1)"
    by (cases "dist_points_loop ok (arg_USE_CATS a) (arg_clusters a) (arg_categories a) [0..<arg_N a] [] w")
  have d: "(dist_after a)\<lparr>arg_clusters := arg_clusters (dist_after a)\<rparr> = dist_after a" by simp
  from r show ?thesis
    unfolding distance_anticlustering_unfold[OF ps]
    by (auto simp: Let_def d split: prod.splits option.splits sum.splits bool.splits)
qed

lemma nocat_args_run:
  "distance_anticlustering all_succeed nocat_args start
     = Inr (nocat_args\<lparr>arg_clusters := [1, 0, 0, 1], arg_CAT_frequencies := [4]\<rparr>,
            \<lparr>mallocs = 15, stderr = []\<rparr>)"
  by code_simp

text \<open>
  When the first allocation of \<^verbatim>\<open>c_anticlustering\<close> fails, \<^verbatim>\<open>free_points\<close> frees the
  \<^verbatim>\<open>values\<close> pointers of the elements 1 and 2, which were never assigned; when the first
  allocation of a cluster head fails, \<^verbatim>\<open>free_nodes\<close> dereferences that head.
\<close>

lemma c_anticlustering_cleanup_undefined:
  "c_anticlustering none_succeed bug_args start = Inl Uninitialized_pointer_freed"
  "c_anticlustering (first_succeed 3) bug_args start = Inl Null_pointer_dereferenced"
  by code_simp+

lemma failing_runs:
  "c_anticlustering (first_succeed 5) bug_args start
     = Inr (bug_args, \<lparr>mallocs = 6, stderr = [''Failed to allocate enough memory.'']\<rparr>)"
  "c_anticlustering (first_succeed 2) bug_args start
     = Inr (bug_args, \<lparr>mallocs = 3, stderr = [''Failed to allocate enough memory.'']\<rparr>)"
  "distance_anticlustering none_succeed cat_args start
     = Inr (cat_args, \<lparr>mallocs = 5, stderr = [''Failed to allocate enough memory.'']\<rparr>)"
  by code_simp+

text \<open>
  C8, as amended. In every call of \<^verbatim>\<open>c_anticlustering\<close> in which the first allocation that
  fails is that of the last row of values or that of a list node, and in every call of
  \<^verbatim>\<open>distance_anticlustering\<close> in which an allocation fails whose result the code tests
  (every allocation but the per-element dummy \<^verbatim>\<open>values\<close> buffers of its first loop), the
  call writes the message to \<^verbatim>\<open>stderr\<close> and returns with \<^verbatim>\<open>clusters\<close> holding its input
  values. (\<^verbatim>\<open>c_anticlustering\<close> allocates the \<open>N\<close> rows of values first, then the \<open>K\<close>
  cluster heads, then the \<open>N\<close> list nodes.)
\<close>

theorem checked_allocation_failure:
  "(first_failure ok w t \<and>
      (Suc t = arg_N va \<or> arg_N va + arg_K va \<le> t \<and> t < arg_N va + arg_K va + arg_N va)
      \<longrightarrow> (\<exists>w'. c_anticlustering ok va w = Inr (va, w') \<and> oom w w'))
   \<and> (\<not> all_ok ok (mallocs w + arg_N da) (checked_allocs da)
      \<longrightarrow> (\<exists>out w'. distance_anticlustering ok da w = Inr (out, w') \<and>
             arg_clusters out = arg_clusters da \<and> oom w w'))"
proof (intro conjI impI)
  let ?n = "arg_N va" and ?k = "arg_K va"
  assume h: "first_failure ok w t \<and> (Suc t = ?n \<or> ?n + ?k \<le> t \<and> t < ?n + ?k + ?n)"
  then have pre: "all_ok ok (mallocs w) t" and fail: "\<not> ok (mallocs w + t)"
    and t: "Suc t = ?n \<or> ?n + ?k \<le> t \<and> t < ?n + ?k + ?n"
    by (simp_all add: first_failure_def)
  from t have lt: "t < ?n + ?k + ?n" and ge: "?n - 1 \<le> t" by auto
  have nall: "\<not> all_ok ok (mallocs w) (?n + ?k + ?n)"
    using all_ok_nth[OF _ lt, of ok "mallocs w"] fail by blast
  have rows: "all_ok ok (mallocs w) (?n - 1)" using all_ok_mono[OF pre ge] .
  have heads: "\<not> (all_ok ok (mallocs w) ?n \<and> \<not> all_ok ok (mallocs w + ?n) ?k)"
  proof (cases "Suc t = ?n")
    case True
    then have "t < ?n" by simp
    from all_ok_nth[OF _ this, of ok "mallocs w"] fail show ?thesis by blast
  next
    case False
    with t have "?n + ?k \<le> t" by simp
    from all_ok_mono[OF pre this] show ?thesis by (simp add: all_ok_add)
  qed
  from c_anticlustering_fail[OF nall] rows heads
  show "\<exists>w'. c_anticlustering ok va w = Inr (va, w') \<and> oom w w'" by blast
next
  assume "\<not> all_ok ok (mallocs w + arg_N da) (checked_allocs da)"
  from distance_anticlustering_fail[OF this] obtain w' where
    "distance_anticlustering ok da w = Inr (dist_after da, w')" "oom w w'"
    by (elim exE conjE)
  then have "distance_anticlustering ok da w = Inr (dist_after da, w') \<and>
             arg_clusters (dist_after da) = arg_clusters da \<and> oom w w'"
    by (simp add: dist_after_simps)
  then show "\<exists>out w'. distance_anticlustering ok da w = Inr (out, w') \<and>
             arg_clusters out = arg_clusters da \<and> oom w w'"
    by (intro exI)
qed

theorem checked_allocation_failure_witness:
  "first_failure (first_succeed 5) start 5
   \<and> arg_N bug_args + arg_K bug_args \<le> 5 \<and> 5 < arg_N bug_args + arg_K bug_args + arg_N bug_args
   \<and> c_anticlustering (first_succeed 5) bug_args start
        = Inr (bug_args, \<lparr>mallocs = 6, stderr = [''Failed to allocate enough memory.'']\<rparr>)
   \<and> oom start \<lparr>mallocs = 6, stderr = [''Failed to allocate enough memory.'']\<rparr>
   \<and> first_failure (first_succeed 2) start 2 \<and> Suc 2 = arg_N bug_args
   \<and> c_anticlustering (first_succeed 2) bug_args start
        = Inr (bug_args, \<lparr>mallocs = 3, stderr = [''Failed to allocate enough memory.'']\<rparr>)
   \<and> oom start \<lparr>mallocs = 3, stderr = [''Failed to allocate enough memory.'']\<rparr>
   \<and> \<not> all_ok none_succeed (mallocs start + arg_N cat_args) (checked_allocs cat_args)
   \<and> distance_anticlustering none_succeed cat_args start
        = Inr (cat_args, \<lparr>mallocs = 5, stderr = [''Failed to allocate enough memory.'']\<rparr>)
   \<and> oom start \<lparr>mallocs = 5, stderr = [''Failed to allocate enough memory.'']\<rparr>"
proof -
  have f5: "first_failure (first_succeed 5) start 5"
    by (simp add: first_failure_def all_ok_def first_succeed_def start_def)
  have b5: "arg_N bug_args + arg_K bug_args \<le> 5" "5 < arg_N bug_args + arg_K bug_args + arg_N bug_args"
    by (simp_all add: bug_args_def)
  have f2: "first_failure (first_succeed 2) start 2"
    by (simp add: first_failure_def all_ok_def first_succeed_def start_def)
  have b2: "Suc 2 = arg_N bug_args" by (simp add: bug_args_def)
  have h: "\<not> all_ok none_succeed (mallocs start + arg_N cat_args) (checked_allocs cat_args)"
    by (auto simp: all_ok_def none_succeed_def cat_args_def checked_allocs_def n_cats_def
        intro: exI[of _ 0])
  from checked_allocation_failure[of "first_succeed 5" start 5 bug_args, THEN conjunct1] f5 b5
  obtain w1 where "c_anticlustering (first_succeed 5) bug_args start = Inr (bug_args, w1)" "oom start w1"
    by blast
  then have o1: "oom start \<lparr>mallocs = 6, stderr = [''Failed to allocate enough memory.'']\<rparr>"
    by (simp add: failing_runs(1))
  from checked_allocation_failure[of "first_succeed 2" start 2 bug_args, THEN conjunct1] f2 b2
  obtain w2 where "c_anticlustering (first_succeed 2) bug_args start = Inr (bug_args, w2)" "oom start w2"
    by blast
  then have o2: "oom start \<lparr>mallocs = 3, stderr = [''Failed to allocate enough memory.'']\<rparr>"
    by (simp add: failing_runs(2))
  from checked_allocation_failure[of none_succeed start _ _ cat_args, THEN conjunct2] h
  obtain out w3 where "distance_anticlustering none_succeed cat_args start = Inr (out, w3)" "oom start w3"
    by blast
  then have o3: "oom start \<lparr>mallocs = 5, stderr = [''Failed to allocate enough memory.'']\<rparr>"
    by (simp add: failing_runs(3))
  from f5 b5 f2 b2 h o1 o2 o3 failing_runs show ?thesis by simp
qed

text \<open>
  C8 as stated fails: when the four dummy allocations of the first loop of
  \<^verbatim>\<open>distance_anticlustering\<close> fail and all later ones succeed, nothing is reported and the
  call optimizes \<^verbatim>\<open>clusters\<close> as usual.
\<close>

theorem dummy_allocation_failure_ignored:
  "distance_anticlustering (dummy_fails 4) nocat_args start
     = Inr (nocat_args\<lparr>arg_clusters := [1, 0, 0, 1], arg_CAT_frequencies := [4]\<rparr>,
            \<lparr>mallocs = 15, stderr = []\<rparr>)
   \<and> \<not> dummy_fails 4 0
   \<and> arg_clusters nocat_args = [0, 0, 1, 1]"
  by code_simp

text \<open>
  C9, as amended. A call of \<^verbatim>\<open>c_anticlustering\<close> writes only \<^verbatim>\<open>clusters\<close> among the
  caller's buffers. A call of \<^verbatim>\<open>distance_anticlustering\<close> writes \<^verbatim>\<open>clusters\<close> and, when
  \<^verbatim>\<open>USE_CATS\<close> is 0, stores \<open>N\<close> in \<^verbatim>\<open>CAT_frequencies[0]\<close>; \<^verbatim>\<open>data\<close>, \<^verbatim>\<open>frequencies\<close>
  and \<^verbatim>\<open>categories\<close> hold their input values, and so does \<^verbatim>\<open>CAT_frequencies\<close> when
  \<^verbatim>\<open>USE_CATS\<close> is not 0.
\<close>

theorem only_clusters_written:
  "(c_anticlustering ok va w = Inr (vout, w1) \<longrightarrow> vout = va\<lparr>arg_clusters := arg_clusters vout\<rparr>)
   \<and> (distance_anticlustering ok da w = Inr (dout, w2) \<longrightarrow>
        dout = da\<lparr>arg_clusters := arg_clusters dout,
                  arg_CAT_frequencies :=
                    (if arg_USE_CATS da \<noteq> 0 then arg_CAT_frequencies da
                     else (arg_CAT_frequencies da)[0 := arg_N da])\<rparr>)"
proof (intro conjI impI)
  assume "c_anticlustering ok va w = Inr (vout, w1)"
  then show "vout = va\<lparr>arg_clusters := arg_clusters vout\<rparr>" by (rule c_anticlustering_frame)
next
  assume "distance_anticlustering ok da w = Inr (dout, w2)"
  then have e: "dout = (dist_after da)\<lparr>arg_clusters := arg_clusters dout\<rparr>"
    by (rule distance_anticlustering_frame)
  define X where "X = arg_clusters dout"
  have "(dist_after da)\<lparr>arg_clusters := X\<rparr> = da\<lparr>arg_clusters := X,
                  arg_CAT_frequencies :=
                    (if arg_USE_CATS da \<noteq> 0 then arg_CAT_frequencies da
                     else (arg_CAT_frequencies da)[0 := arg_N da])\<rparr>"
    by (cases da) (simp add: dist_after_def)
  with e show "dout = da\<lparr>arg_clusters := arg_clusters dout,
                  arg_CAT_frequencies :=
                    (if arg_USE_CATS da \<noteq> 0 then arg_CAT_frequencies da
                     else (arg_CAT_frequencies da)[0 := arg_N da])\<rparr>"
    unfolding X_def by (rule trans)
qed

theorem only_clusters_written_witness:
  "c_anticlustering all_succeed bug_args start
     = Inr (bug_args\<lparr>arg_clusters := [1, 1, 0]\<rparr>, \<lparr>mallocs = 8, stderr = []\<rparr>)
   \<and> distance_anticlustering all_succeed nocat_args start
     = Inr (nocat_args\<lparr>arg_clusters := [1, 0, 0, 1], arg_CAT_frequencies := [4]\<rparr>,
            \<lparr>mallocs = 15, stderr = []\<rparr>)
   \<and> arg_data (nocat_args\<lparr>arg_clusters := [1, 0, 0, 1], arg_CAT_frequencies := [4]\<rparr>) = arg_data nocat_args
   \<and> (arg_CAT_frequencies nocat_args)[0 := arg_N nocat_args] = [4]"
proof -
  note T = only_clusters_written[of all_succeed bug_args start "bug_args\<lparr>arg_clusters := [1, 1, 0]\<rparr>"
      "\<lparr>mallocs = 8, stderr = []\<rparr>" nocat_args
      "nocat_args\<lparr>arg_clusters := [1, 0, 0, 1], arg_CAT_frequencies := [4]\<rparr>"
      "\<lparr>mallocs = 15, stderr = []\<rparr>"]
  from T[THEN conjunct2, THEN mp, OF nocat_args_run]
  have "nocat_args\<lparr>arg_clusters := [1, 0, 0, 1], arg_CAT_frequencies := [4]\<rparr>
      = nocat_args\<lparr>arg_clusters := [1, 0, 0, 1],
          arg_CAT_frequencies := (arg_CAT_frequencies nocat_args)[0 := arg_N nocat_args]\<rparr>"
    by (simp add: nocat_args_def)
  then have "(arg_CAT_frequencies nocat_args)[0 := arg_N nocat_args] = [4]"
    by (simp add: nocat_args_def)
  with bug_args_run nocat_args_run show ?thesis by simp
qed

text \<open>
  C9 as stated fails: with \<^verbatim>\<open>USE_CATS = 0\<close> and \<^verbatim>\<open>CAT_frequencies = [0]\<close> the call returns
  with \<^verbatim>\<open>CAT_frequencies = [4]\<close>.
\<close>

theorem CAT_frequencies_overwritten:
  "distance_anticlustering all_succeed nocat_args start
     = Inr (nocat_args\<lparr>arg_clusters := [1, 0, 0, 1], arg_CAT_frequencies := [4]\<rparr>,
            \<lparr>mallocs = 15, stderr = []\<rparr>)
   \<and> arg_USE_CATS nocat_args = 0
   \<and> arg_CAT_frequencies nocat_args = [0]
   \<and> arg_CAT_frequencies (nocat_args\<lparr>arg_clusters := [1, 0, 0, 1], arg_CAT_frequencies := [4]\<rparr>)
       \<noteq> arg_CAT_frequencies nocat_args"
  using nocat_args_run by (simp add: nocat_args_def)

section \<open>Claims about the diversity variant\<close>

text \<open>
  C7, as amended. For a symmetric matrix \<open>D\<close> with zero diagonal, in every state of the index
  reachable from initialization and for every tentative swap of an element \<open>i\<close> of cluster
  \<open>a\<close> with an element \<open>j\<close> of cluster \<open>b \<noteq> a\<close>: if \<open>v_a\<close> and \<open>v_b\<close> are the
  once-per-unordered-pair distance sums of the two clusters before the swap, the values the
  incremental update of \<^verbatim>\<open>distance_anticlustering\<close> leaves in \<open>tmp_objs[a]\<close> and
  \<open>tmp_objs[b]\<close> are those sums for the memberships after the swap, and they are what
  \<^verbatim>\<open>distances_within\<close> recomputes from the lists after the swap.
\<close>

theorem dist_tentative_recompute:
  assumes "points_ok n k clusters points" and "reachable n k clusters points s"
    and "i < n" and "j < n" and "a < k" and "b < k" and "a \<noteq> b"
    and "cluster (POINTS s ! i) = a" and "cluster (POINTS s ! j) = b"
    and "symmetric_matrix n D" and "zero_diagonal n D"
    and "v ! a = diversity_of D (map cluster (POINTS s)) a"
    and "v ! b = diversity_of D (map cluster (POINTS s)) b"
    and "dist_tentative k D i j a b v s = (s', v')"
  shows "v' ! a = diversity_of D (map cluster (POINTS s')) a
       \<and> v' ! b = diversity_of D (map cluster (POINTS s')) b
       \<and> v' ! a = distances_within D (CHAINS s' ! a) s'
       \<and> v' ! b = distances_within D (CHAINS s' ! b) s'"
proof -
  from reachable_consistent[OF assms(2) assms(1)]
  have c: "consistent n s" and ch: "chains_ok n k s" by simp_all
  note i = assms(3) and j = assms(4) and ak = assms(5) and bk = assms(6) and sym = assms(10)
  have c': "consistent n (swap i j s)" using swap_consistent[OF c i j] .
  have ch': "chains_ok n k (swap i j s)" using swap_chains_ok[OF c i j ch] .
  have s': "s' = swap i j s" and va: "v' ! a
       = v ! a - distances_one_element D (CHAINS s ! a) i s
           + distances_one_element D (CHAINS (swap i j s) ! a) j (swap i j s)"
    and vb: "v' ! b
       = v ! b - distances_one_element D (CHAINS s ! b) j s
           + distances_one_element D (CHAINS (swap i j s) ! b) i (swap i j s)"
    using dist_tentative_values[OF assms(7) ak bk, where D=D and i=i and j=j and v=v and s=s] assms(14)
    by simp_all
  have cj: "cluster (POINTS s ! j) \<noteq> a" and ci: "cluster (POINTS s ! i) \<noteq> b"
    using assms(7,8,9) by simp_all
  have "v ! a = distances_within D (CHAINS s ! a) s"
    using assms(12) diversity_of_chain[OF c ch ak sym] by simp
  then have A: "v' ! a = distances_within D (CHAINS s' ! a) s'"
    unfolding va s'
    using tentative_cluster[OF c ch i j ak _ assms(8) cj sym assms(11)] by simp
  have "v ! b = distances_within D (CHAINS s ! b) s"
    using assms(13) diversity_of_chain[OF c ch bk sym] by simp
  then have B: "v' ! b = distances_within D (CHAINS s' ! b) s'"
    unfolding vb s'
    using tentative_cluster[OF c ch i j bk _ assms(9) ci sym assms(11)] by simp
  from A B diversity_of_chain[OF c' ch' ak sym] diversity_of_chain[OF c' ch' bk sym]
  show ?thesis unfolding s' by simp
qed

text \<open>A symmetric matrix for the three elements of the example index.\<close>

definition example_distances :: "real list list" where
  "example_distances = [[0, 1, 2], [1, 0, 4], [2, 4, 0]]"

lemma example_distances_ok:
  "symmetric_matrix 3 example_distances" "zero_diagonal 3 example_distances"
  by (simp_all add: symmetric_matrix_def zero_diagonal_def example_distances_def less_Suc_eq
      numeral_3_eq_3)

lemma example_tentative:
  "dist_tentative 2 example_distances 0 2 0 1 [0, 4] example_index
     = (swap 0 2 example_index, [0, 1])"
  "map cluster (POINTS example_index) = [0, 1, 1]"
  "map cluster (POINTS (swap 0 2 example_index)) = [1, 1, 0]"
  "diversity_of example_distances [0, 1, 1] 0 = 0"
  "diversity_of example_distances [0, 1, 1] 1 = 4"
  by code_simp+

theorem dist_tentative_recompute_witness:
  "points_ok 3 2 [0, 1, 1] example_points \<and> reachable 3 2 [0, 1, 1] example_points example_index
   \<and> symmetric_matrix 3 example_distances \<and> zero_diagonal 3 example_distances
   \<and> cluster (POINTS example_index ! 0) = 0 \<and> cluster (POINTS example_index ! 2) = 1
   \<and> [0, 4] ! 0 = diversity_of example_distances (map cluster (POINTS example_index)) 0
   \<and> [0, 4] ! 1 = diversity_of example_distances (map cluster (POINTS example_index)) 1
   \<and> dist_tentative 2 example_distances 0 2 0 1 [0, 4] example_index
        = (swap 0 2 example_index, [0, 1])
   \<and> diversity_of example_distances [1, 1, 0] 0 = 0
   \<and> diversity_of example_distances [1, 1, 0] 1 = 1"
proof -
  have h: "cluster (POINTS example_index ! 0) = 0" "cluster (POINTS example_index ! 2) = 1"
    by (simp_all add: example_index_def example_points_def)
  have v: "[0, 4] ! 0 = diversity_of example_distances (map cluster (POINTS example_index)) 0"
    "[0, 4] ! 1 = diversity_of example_distances (map cluster (POINTS example_index)) 1"
    by code_simp+
  from dist_tentative_recompute[OF example_points_ok example_index_reachable _ _ _ _ _ h
      example_distances_ok v example_tentative(1)]
  have "diversity_of example_distances [1, 1, 0] 0 = 0 \<and> diversity_of example_distances [1, 1, 0] 1 = 1"
    by (simp add: example_tentative)
  with example_points_ok example_index_reachable example_distances_ok h v example_tentative(1)
  show ?thesis by simp
qed

text \<open>
  Four elements, the first in cluster 0 and the others in cluster 1, with the index
  \<^verbatim>\<open>fill_cluster_lists\<close> builds for them, and a matrix with zero diagonal that is not
  symmetric: \<open>D[1, 2] = D[2, 3] = 1\<close>, all other entries 0.
\<close>

definition skew_points :: "element list" where
  "skew_points = map (\<lambda>e. \<lparr>ID = e, cluster = (if e = 0 then 0 else 1), category = 0, vals = []\<rparr>) [0..<4]"

definition skew_index :: membership where
  "skew_index = \<lparr>POINTS = skew_points, NODE_DATA = [0..<4], PTR_NODES = [0..<4],
     CHAINS = [[0], [3, 2, 1]]\<rparr>"

definition skew_distances :: "real list list" where
  "skew_distances = [[0, 0, 0, 0], [0, 0, 1, 0], [0, 0, 0, 1], [0, 0, 0, 0]]"

lemma skew_index_init:
  "fill_cluster_lists all_succeed 4 2 [0, 1, 1, 1] skew_points (replicate 2 []) start
     = (Some skew_index, \<lparr>mallocs = 4, stderr = []\<rparr>)"
  by code_simp

text \<open>
  C7 as stated fails: the matrix above has zero diagonal. For the tentative swap of element 0
  with element 2, starting from the per-cluster values \<open>[0, 0]\<close> that \<^verbatim>\<open>distance_objective\<close>
  computes, the incremental update gives \<open>-1\<close> for cluster 1; starting from the
  once-per-pair sums \<open>[0, 2]\<close> it gives \<open>1\<close>. Recomputed from the memberships after the swap
  the value is \<open>0\<close>, by \<^verbatim>\<open>distances_within\<close> and as the sum over the pairs of members.
\<close>

theorem dist_tentative_asymmetric:
  "zero_diagonal 4 skew_distances
   \<and> distance_objective 2 skew_distances skew_index = [0, 0]
   \<and> snd (dist_tentative 2 skew_distances 0 2 0 1 [0, 0] skew_index) ! 1 = - 1
   \<and> map (diversity_of skew_distances (map cluster (POINTS skew_index))) [0, 1] = [0, 2]
   \<and> snd (dist_tentative 2 skew_distances 0 2 0 1 [0, 2] skew_index) ! 1 = 1
   \<and> distances_within skew_distances (CHAINS (swap 0 2 skew_index) ! 1) (swap 0 2 skew_index) = 0
   \<and> diversity_of skew_distances (map cluster (POINTS (swap 0 2 skew_index))) 1 = 0"
proof -
  have "zero_diagonal 4 skew_distances"
    by (simp add: zero_diagonal_def skew_distances_def less_Suc_eq eval_nat_numeral)
  moreover have "distance_objective 2 skew_distances skew_index = [0, 0]
   \<and> snd (dist_tentative 2 skew_distances 0 2 0 1 [0, 0] skew_index) ! 1 = - 1
   \<and> map (diversity_of skew_distances (map cluster (POINTS skew_index))) [0, 1] = [0, 2]
   \<and> snd (dist_tentative 2 skew_distances 0 2 0 1 [0, 2] skew_index) ! 1 = 1
   \<and> distances_within skew_distances (CHAINS (swap 0 2 skew_index) ! 1) (swap 0 2 skew_index) = 0
   \<and> diversity_of skew_distances (map cluster (POINTS (swap 0 2 skew_index))) 1 = 0"
    by code_simp
  ultimately show ?thesis by simp
qed

section \<open>Claims about the commit\<close>

text \<open>
  The state of \<^verbatim>\<open>c_anticlustering\<close> at the start of its first round on the input of C1 and
  C4, and that of \<^verbatim>\<open>distance_anticlustering\<close> at the start of its first round on the input
  with two categories (the four points on a line; the partner lists are \<open>[[0, 2], [1, 3]]\<close>),
  each with a value put into \<^verbatim>\<open>best_partner\<close> as an earlier round could have left it.
\<close>

definition bug_state :: var_state where
  "bug_state = \<lparr>lists = bug_index, best_partner = Some 2, CENTERS = [[0], [2]],
     OBJECTIVE_BY_CLUSTER = [0, 2], SUM_VAR_OBJECTIVE = 2, best_objective = 0,
     best_centers = [], best_objectives = []\<rparr>"

definition cat_points :: "element list" where
  "cat_points =
    [\<lparr>ID = 0, cluster = 0, category = 0, vals = [0]\<rparr>,
     \<lparr>ID = 1, cluster = 0, category = 1, vals = [0]\<rparr>,
     \<lparr>ID = 2, cluster = 1, category = 0, vals = [0]\<rparr>,
     \<lparr>ID = 3, cluster = 1, category = 1, vals = [0]\<rparr>]"

definition cat_index :: membership where
  "cat_index = \<lparr>POINTS = cat_points, NODE_DATA = [0, 1, 2, 3], PTR_NODES = [0, 1, 2, 3],
     CHAINS = [[1, 0], [3, 2]]\<rparr>"

definition cat_state :: dist_state where
  "cat_state = \<lparr>lists = cat_index, best_partner = Some 1, OBJ_BY_CLUSTER = [10, 10],
     SUM_OBJECTIVE = 20, best_obj = 0, best_objs = []\<rparr>"

lemma bug_state_init:
  "objective_by_cluster 1 2 [[0], [2]] bug_index = [0, 2]"
  "array_sum 2 [0, 2] = 2"
  by code_simp+

lemma bug_state_ok:
  "consistent 3 (lists bug_state)" "0 \<le> SUM_VAR_OBJECTIVE bug_state"
  "best_partner bug_state = Some 2"
  by (simp_all add: bug_state_def bug_index_def bug_points_def consistent_def less_Suc_eq
      numeral_3_eq_3)

lemma bug_state_search:
  "SUM_VAR_OBJECTIVE (var_search 3 2 1 [1, 2] 0 bug_state) = 2"
  "best_objective (var_search 3 2 1 [1, 2] 0 bug_state) = 19 / 4"
  "best_partner (var_search 3 2 1 [1, 2] 0 bug_state) = Some 1"
  by code_simp+

lemma cat_state_ok:
  "consistent 4 (lists cat_state)"
  "partners_ok 4 (map category (POINTS (lists cat_state))) [2, 2] [[0, 2], [1, 3]]"
  "0 \<le> SUM_OBJECTIVE cat_state" "best_partner cat_state = Some 1"
  by (simp_all add: cat_state_def cat_index_def cat_points_def consistent_def partners_ok_def
      less_Suc_eq eval_nat_numeral)

lemma cat_state_search:
  "SUM_OBJECTIVE (dist_search 2 (restore_distances line_data 4) [2, 2] [[0, 2], [1, 3]] 0 cat_state) = 20"
  "best_obj (dist_search 2 (restore_distances line_data 4) [2, 2] [[0, 2], [1, 3]] 0 cat_state) = 22"
  "best_partner (dist_search 2 (restore_distances line_data 4) [2, 2] [[0, 2], [1, 3]] 0 cat_state) = Some 2"
  by code_simp+

lemma cat_state_init:
  "fill_cluster_lists all_succeed 4 2 [0, 0, 1, 1] cat_points [[], []] \<lparr>mallocs = 8, stderr = []\<rparr>
     = (Some cat_index, \<lparr>mallocs = 12, stderr = []\<rparr>)"
  "distance_objective 2 (restore_distances line_data 4) cat_index = [10, 10]"
  by code_simp+

lemma cat_args_nonneg:
  "\<forall>x<arg_N cat_args. \<forall>y<arg_N cat_args. 0 \<le> arg_data cat_args ! (y * arg_N cat_args + x)"
  by (simp add: cat_args_def line_data_def less_Suc_eq eval_nat_numeral)

text \<open>
  C10. In a round of either entry point that begins with an objective \<open>SUM \<ge> 0\<close> (the code
  computes it with \<^verbatim>\<open>array_sum\<close> from the per-cluster values, so it is not negative when
  these are not), the commit branch is entered only if a partner was recorded in the inner
  loop of that round: whenever the test \<open>best > SUM\<close> succeeds after the inner loop for an
  element \<open>i\<close>, \<^verbatim>\<open>best_partner\<close> holds an element id \<open>j < n\<close>, and \<open>j\<close> is the same whatever
  \<^verbatim>\<open>best_partner\<close> held when the round began (nothing, or what an earlier round left
  there). The conditions on the state are the invariants of the outer loops; no call of
  \<^verbatim>\<open>c_anticlustering\<close>, and no call of \<^verbatim>\<open>distance_anticlustering\<close> on a matrix without
  negative entries, reads \<^verbatim>\<open>best_partner\<close> unassigned.
\<close>

theorem commit_partner_of_own_round:
  "(consistent n (lists vs) \<and> i < n \<and> 0 \<le> SUM_VAR_OBJECTIVE vs \<and>
      SUM_VAR_OBJECTIVE (var_search n k m fr i vs) < best_objective (var_search n k m fr i vs)
      \<longrightarrow> (\<exists>j<n. \<forall>b. best_partner (var_search n k m fr i (vs\<lparr>best_partner := b\<rparr>)) = Some j))
   \<and> (consistent n (lists ds) \<and> i < n \<and> partners_ok n (map category (POINTS (lists ds))) CF CH \<and>
      0 \<le> SUM_OBJECTIVE ds \<and>
      SUM_OBJECTIVE (dist_search k D CF CH i ds) < best_obj (dist_search k D CF CH i ds)
      \<longrightarrow> (\<exists>j<n. \<forall>b. best_partner (dist_search k D CF CH i (ds\<lparr>best_partner := b\<rparr>)) = Some j))
   \<and> ((\<forall>c<k. 0 \<le> xs ! c) \<longrightarrow> 0 \<le> array_sum k xs)
   \<and> (clusters_ok (arg_N va) (arg_K va) (arg_clusters va)
      \<longrightarrow> c_anticlustering ok va w \<noteq> Inl Uninitialized_best_partner)
   \<and> (dist_pre da \<and> (\<forall>x<arg_N da. \<forall>y<arg_N da. 0 \<le> arg_data da ! (y * arg_N da + x))
      \<longrightarrow> distance_anticlustering ok da w \<noteq> Inl Uninitialized_best_partner)"
proof (intro conjI impI)
  assume "consistent n (lists vs) \<and> i < n \<and> 0 \<le> SUM_VAR_OBJECTIVE vs \<and>
      SUM_VAR_OBJECTIVE (var_search n k m fr i vs) < best_objective (var_search n k m fr i vs)"
  then show "\<exists>j<n. \<forall>b. best_partner (var_search n k m fr i (vs\<lparr>best_partner := b\<rparr>)) = Some j"
    by (intro var_search_partner) simp_all
next
  assume "consistent n (lists ds) \<and> i < n \<and> partners_ok n (map category (POINTS (lists ds))) CF CH \<and>
      0 \<le> SUM_OBJECTIVE ds \<and>
      SUM_OBJECTIVE (dist_search k D CF CH i ds) < best_obj (dist_search k D CF CH i ds)"
  then show "\<exists>j<n. \<forall>b. best_partner (dist_search k D CF CH i (ds\<lparr>best_partner := b\<rparr>)) = Some j"
    by (intro dist_search_partner) simp_all
next
  assume "\<forall>c<k. 0 \<le> xs ! c"
  then show "0 \<le> array_sum k xs" by (rule array_sum_nonneg)
next
  assume "clusters_ok (arg_N va) (arg_K va) (arg_clusters va)"
  then show "c_anticlustering ok va w \<noteq> Inl Uninitialized_best_partner"
    by (rule c_anticlustering_partner)
next
  assume "dist_pre da \<and> (\<forall>x<arg_N da. \<forall>y<arg_N da. 0 \<le> arg_data da ! (y * arg_N da + x))"
  then have "\<exists>out w'. distance_anticlustering ok da w = Inr (out, w')"
    by (intro distance_anticlustering_returns) simp_all
  then show "distance_anticlustering ok da w \<noteq> Inl Uninitialized_best_partner" by auto
qed

theorem commit_partner_of_own_round_witness:
  "consistent 3 (lists bug_state) \<and> 0 \<le> SUM_VAR_OBJECTIVE bug_state
   \<and> SUM_VAR_OBJECTIVE (var_search 3 2 1 [1, 2] 0 bug_state)
        < best_objective (var_search 3 2 1 [1, 2] 0 bug_state)
   \<and> best_partner bug_state = Some 2
   \<and> best_partner (var_search 3 2 1 [1, 2] 0 bug_state) = Some 1
   \<and> best_partner (var_search 3 2 1 [1, 2] 0 (bug_state\<lparr>best_partner := None\<rparr>)) = Some 1
   \<and> consistent 4 (lists cat_state)
   \<and> partners_ok 4 (map category (POINTS (lists cat_state))) [2, 2] [[0, 2], [1, 3]]
   \<and> 0 \<le> SUM_OBJECTIVE cat_state
   \<and> SUM_OBJECTIVE (dist_search 2 (restore_distances line_data 4) [2, 2] [[0, 2], [1, 3]] 0 cat_state)
        < best_obj (dist_search 2 (restore_distances line_data 4) [2, 2] [[0, 2], [1, 3]] 0 cat_state)
   \<and> best_partner cat_state = Some 1
   \<and> best_partner (dist_search 2 (restore_distances line_data 4) [2, 2] [[0, 2], [1, 3]] 0
        (cat_state\<lparr>best_partner := None\<rparr>)) = Some 2
   \<and> 0 \<le> OBJECTIVE_BY_CLUSTER bug_state ! 0 \<and> 0 \<le> OBJECTIVE_BY_CLUSTER bug_state ! 1
   \<and> 0 \<le> array_sum 2 (OBJECTIVE_BY_CLUSTER bug_state)
   \<and> clusters_ok (arg_N bug_args) (arg_K bug_args) (arg_clusters bug_args)
   \<and> c_anticlustering all_succeed bug_args start \<noteq> Inl Uninitialized_best_partner
   \<and> dist_pre cat_args
   \<and> distance_anticlustering all_succeed cat_args start \<noteq> Inl Uninitialized_best_partner"
proof -
  let ?D = "restore_distances line_data 4"
  have per: "0 \<le> OBJECTIVE_BY_CLUSTER bug_state ! 0" "0 \<le> OBJECTIVE_BY_CLUSTER bug_state ! 1"
    by (simp_all add: bug_state_def)
  then have "\<forall>c<2. 0 \<le> OBJECTIVE_BY_CLUSTER bug_state ! c"
    by (simp add: less_Suc_eq numeral_2_eq_2)
  with commit_partner_of_own_round[where k=2 and xs="OBJECTIVE_BY_CLUSTER bug_state",
      THEN conjunct2, THEN conjunct2, THEN conjunct1]
  have sum: "0 \<le> array_sum 2 (OBJECTIVE_BY_CLUSTER bug_state)" by blast
  have vc: "SUM_VAR_OBJECTIVE (var_search 3 2 1 [1, 2] 0 bug_state)
        < best_objective (var_search 3 2 1 [1, 2] 0 bug_state)"
    unfolding bug_state_search by simp
  have dc: "SUM_OBJECTIVE (dist_search 2 ?D [2, 2] [[0, 2], [1, 3]] 0 cat_state)
        < best_obj (dist_search 2 ?D [2, 2] [[0, 2], [1, 3]] 0 cat_state)"
    unfolding cat_state_search by simp
  have "\<exists>j<3. \<forall>b. best_partner (var_search 3 2 1 [1, 2] 0 (bug_state\<lparr>best_partner := b\<rparr>)) = Some j"
    using commit_partner_of_own_round[where n=3 and vs=bug_state and i=0 and k=2 and m=1
        and fr="[1, 2]", THEN conjunct1] bug_state_ok(1,2) vc by simp
  then obtain j where j: "\<And>b. best_partner (var_search 3 2 1 [1, 2] 0 (bug_state\<lparr>best_partner := b\<rparr>)) = Some j"
    by blast
  have "bug_state\<lparr>best_partner := Some 2\<rparr> = bug_state" by (simp add: bug_state_def)
  with j[of "Some 2"] bug_state_search(3) have "j = 1" by simp
  with j[of None] have v: "best_partner (var_search 3 2 1 [1, 2] 0 (bug_state\<lparr>best_partner := None\<rparr>)) = Some 1"
    by simp
  have "\<exists>j<4. \<forall>b. best_partner (dist_search 2 ?D [2, 2] [[0, 2], [1, 3]] 0
        (cat_state\<lparr>best_partner := b\<rparr>)) = Some j"
    using commit_partner_of_own_round[where n=4 and ds=cat_state and i=0 and k=2 and D="?D"
        and CF="[2, 2]" and CH="[[0, 2], [1, 3]]", THEN conjunct2, THEN conjunct1]
      cat_state_ok(1,2,3) dc by simp
  then obtain j' where j': "\<And>b. best_partner (dist_search 2 ?D [2, 2] [[0, 2], [1, 3]] 0
        (cat_state\<lparr>best_partner := b\<rparr>)) = Some j'"
    by blast
  have "cat_state\<lparr>best_partner := Some 1\<rparr> = cat_state" by (simp add: cat_state_def)
  with j'[of "Some 1"] cat_state_search(3) have "j' = 2" by simp
  with j'[of None] have d: "best_partner (dist_search 2 ?D [2, 2] [[0, 2], [1, 3]] 0
        (cat_state\<lparr>best_partner := None\<rparr>)) = Some 2"
    by simp
  have c1: "c_anticlustering all_succeed bug_args start \<noteq> Inl Uninitialized_best_partner"
    using commit_partner_of_own_round[where va=bug_args and ok=all_succeed and w=start,
        THEN conjunct2, THEN conjunct2, THEN conjunct2, THEN conjunct1] bug_args_ok(1) by simp
  have c2: "distance_anticlustering all_succeed cat_args start \<noteq> Inl Uninitialized_best_partner"
    using commit_partner_of_own_round[where da=cat_args and ok=all_succeed and w=start,
        THEN conjunct2, THEN conjunct2, THEN conjunct2, THEN conjunct2] cat_args_ok(1) cat_args_nonneg
    by simp
  from bug_state_ok vc bug_state_search(3) v cat_state_ok dc d per sum bug_args_ok(1)
    cat_args_ok(1) c1 c2
  show ?thesis by simp
qed

end
